theory Spec2Isabelle
  imports Complex_Main
begin

section \<open>Python string primitives\<close>

text \<open>
  Python strings are sequences of code points. They are modelled as \<open>string\<close>, whose
  characters are the code points below 256 (Latin-1). Whitespace is what
  \<^verbatim>\<open>str.isspace\<close> accepts in that range; \<^verbatim>\<open>str.strip\<close> and the regular
  expression class \<^verbatim>\<open>\s\<close> both use it.
\<close>

definition isspace :: "char \<Rightarrow> bool" where
  "isspace c = (let n = (of_char c :: nat)
     in (9 \<le> n \<and> n \<le> 13) \<or> (28 \<le> n \<and> n \<le> 32) \<or> n = 133 \<or> n = 160)"

definition lstrip :: "string \<Rightarrow> string" where
  "lstrip s = dropWhile isspace s"

definition rstrip :: "string \<Rightarrow> string" where
  "rstrip s = rev (dropWhile isspace (rev s))"

definition strip :: "string \<Rightarrow> string" where
  "strip s = rstrip (lstrip s)"

definition startswith :: "string \<Rightarrow> string \<Rightarrow> bool" where
  "startswith s p = (take (length p) s = p)"

definition endswith :: "string \<Rightarrow> string \<Rightarrow> bool" where
  "endswith s p = (length p \<le> length s \<and> drop (length s - length p) s = p)"

fun join :: "string \<Rightarrow> string list \<Rightarrow> string" where
  "join sep [] = []"
| "join sep [x] = x"
| "join sep (x # y # ys) = x @ sep @ join sep (y # ys)"

section \<open>Documentation comment above a function line\<close>

text \<open>
  \<^verbatim>\<open>extract_jsdoc_comment\<close> walks upward from the line above the function line. Both
  loops are recursions over the lines above the function line, nearest line first.
  \<open>collect_up\<close> is the inner loop (after a line ending in \<^verbatim>\<open>*/\<close> was found): it
  prepends every line to \<open>comment_lines\<close> and stops after a line starting with
  \<^verbatim>\<open>/**\<close> or at the start of the file. \<open>scan_up\<close> is the outer loop.
\<close>

fun collect_up :: "string list \<Rightarrow> string list \<Rightarrow> string list" where
  "collect_up [] comment_lines = comment_lines"
| "collect_up (l # ups) comment_lines =
     (let line = strip l; comment_lines = line # comment_lines
      in if startswith line ''/**'' then comment_lines else collect_up ups comment_lines)"

fun scan_up :: "string list \<Rightarrow> string list" where
  "scan_up [] = []"
| "scan_up (l # ups) =
     (let line = strip l
      in if endswith line ''*/'' then collect_up ups [line]
         else if line = [] \<or> startswith line ''//'' then scan_up ups
         else [])"

text \<open>The clean-up loop: one collected line gives at most one piece of the description.\<close>

definition clean_line :: "string \<Rightarrow> string option" where
  "clean_line l =
     (let line = strip l
      in if startswith line ''/**'' \<or> startswith line ''*/'' then None
         else let line = (if startswith line ''*'' then strip (tl line) else line)
              in if line \<noteq> [] then Some line else None)"

definition clean_up :: "string list \<Rightarrow> string" where
  "clean_up comment_lines = join '' '' (List.map_filter clean_line comment_lines)"

definition extract_jsdoc_comment :: "string list \<Rightarrow> nat \<Rightarrow> string option" where
  "extract_jsdoc_comment lines function_line_index =
     (let comment_lines = scan_up (rev (take function_line_index lines))
      in if comment_lines \<noteq> [] then Some (clean_up comment_lines) else None)"

section \<open>Line-level shape matchers\<close>

text \<open>
  The four regular expressions are anchored at the start of the line. In each of them
  every greedy repetition is followed by a token that the repeated class cannot match
  (\<^verbatim>\<open>\s*\<close> by an identifier start, a parenthesis, a brace or \<^verbatim>\<open>=\<close>; the
  identifier tail by \<^verbatim>\<open>\s\<close>, \<^verbatim>\<open>(\<close> or \<^verbatim>\<open>=\<close>; \<^verbatim>\<open>[^)]*\<close> by \<^verbatim>\<open>)\<close>), so
  giving back characters never helps and the longest repetition is the only candidate.
  The matchers below consume the line piece by piece in that way and return the
  captured group 1.
\<close>

definition ident_start :: "char \<Rightarrow> bool" where
  "ident_start c = (let n = (of_char c :: nat)
     in (97 \<le> n \<and> n \<le> 122) \<or> (65 \<le> n \<and> n \<le> 90) \<or> c = CHR ''_'' \<or> c = CHR ''$'')"

definition ident_char :: "char \<Rightarrow> bool" where
  "ident_char c = (ident_start c \<or> (let n = (of_char c :: nat) in 48 \<le> n \<and> n \<le> 57))"

text \<open>\<^verbatim>\<open>\s*\<close>\<close>

definition ws_star :: "string \<Rightarrow> string" where
  "ws_star s = dropWhile isspace s"

text \<open>\<^verbatim>\<open>\s+\<close>\<close>

definition ws_plus :: "string \<Rightarrow> string option" where
  "ws_plus s = (case s of [] \<Rightarrow> None | c # cs \<Rightarrow> if isspace c then Some (ws_star cs) else None)"

text \<open>A literal piece of the pattern.\<close>

definition literal :: "string \<Rightarrow> string \<Rightarrow> string option" where
  "literal p s = (if startswith s p then Some (drop (length p) s) else None)"

text \<open>\<^verbatim>\<open>([a-zA-Z_$][a-zA-Z0-9_$]*)\<close>: the captured name and the rest of the line.\<close>

definition ident :: "string \<Rightarrow> (string \<times> string) option" where
  "ident s = (case s of [] \<Rightarrow> None
     | c # cs \<Rightarrow> if ident_start c
                then Some (c # takeWhile ident_char cs, dropWhile ident_char cs) else None)"

text \<open>\<^verbatim>\<open>\s*\([^)]*\)\<close>\<close>

definition params :: "string \<Rightarrow> string option" where
  "params s = Option.bind (literal ''('' (ws_star s))
     (\<lambda>r. literal '')'' (dropWhile (\<lambda>c. c \<noteq> CHR '')'') r))"

text \<open>\<^verbatim>\<open>\s*\{\<close>\<close>

definition brace :: "string \<Rightarrow> string option" where
  "brace s = literal ''{'' (ws_star s)"

text \<open>\<^verbatim>\<open>([a-zA-Z_$][a-zA-Z0-9_$]*)\s*\([^)]*\)\s*\{\<close>, from the identifier on.\<close>

definition named_call :: "string \<Rightarrow> string option" where
  "named_call s = Option.bind (ident s)
     (\<lambda>(function_name, r). Option.bind (Option.bind (params r) brace) (\<lambda>_. Some function_name))"

text \<open>Method definitions: \<^verbatim>\<open>^\s*([a-zA-Z_$][a-zA-Z0-9_$]*)\s*\([^)]*\)\s*\{\<close>\<close>

definition match_method :: "string \<Rightarrow> string option" where
  "match_method l = named_call (ws_star l)"

text \<open>Function declarations:
  \<^verbatim>\<open>^\s*function\s+([a-zA-Z_$][a-zA-Z0-9_$]*)\s*\([^)]*\)\s*\{\<close>\<close>

definition match_function :: "string \<Rightarrow> string option" where
  "match_function l =
     Option.bind (Option.bind (literal ''function'' (ws_star l)) ws_plus) named_call"

text \<open>Arrow functions:
  \<^verbatim>\<open>^\s*([a-zA-Z_$][a-zA-Z0-9_$]*)\s*=\s*\([^)]*\)\s*=>\s*\{\<close>\<close>

definition match_arrow :: "string \<Rightarrow> string option" where
  "match_arrow l = Option.bind (ident (ws_star l))
     (\<lambda>(function_name, r).
        Option.bind (literal ''='' (ws_star r))
          (\<lambda>r. Option.bind (params r)
            (\<lambda>r. Option.bind (literal ''=>'' (ws_star r))
              (\<lambda>r. Option.bind (brace r) (\<lambda>_. Some function_name)))))"

text \<open>Class methods:
  \<^verbatim>\<open>^\s*(?:async\s+)?([a-zA-Z_$][a-zA-Z0-9_$]*)\s*\([^)]*\)\s*\{\<close>.
  The optional group is tried first; when the rest fails after it, the match is
  retried without the group.\<close>

definition match_async :: "string \<Rightarrow> string option" where
  "match_async l =
     (case Option.bind (Option.bind (literal ''async'' (ws_star l)) ws_plus) named_call of
        Some function_name \<Rightarrow> Some function_name
      | None \<Rightarrow> named_call (ws_star l))"

definition patterns :: "(string \<Rightarrow> string option) list" where
  "patterns = [match_method, match_function, match_arrow, match_async]"

definition stoplist :: "string list" where
  "stoplist = [''if'', ''for'', ''while'', ''switch'', ''catch'', ''else'']"

section \<open>Extracting the entries of one file\<close>

record entry =
  name :: string
  description :: string
  filepath :: string
  line :: int

definition no_description :: string where
  "no_description = ''No description available''"

text \<open>
  The loop over the patterns for one line. The result is the accepted function name, if
  any, together with the number of patterns that were searched on the line. A match
  whose name is in the stoplist runs \<^verbatim>\<open>continue\<close>: the loop goes on with the next
  pattern. An accepted match runs \<^verbatim>\<open>break\<close>.
\<close>

fun try_patterns :: "(string \<Rightarrow> string option) list \<Rightarrow> string \<Rightarrow> string option \<times> nat" where
  "try_patterns [] l = (None, 0)"
| "try_patterns (pattern # ps) l =
     (case pattern l of
        None \<Rightarrow> (let (r, n) = try_patterns ps l in (r, Suc n))
      | Some function_name \<Rightarrow>
          if function_name \<in> set stoplist
          then (let (r, n) = try_patterns ps l in (r, Suc n))
          else (Some function_name, 1))"

definition line_entry :: "string \<Rightarrow> string list \<Rightarrow> nat \<times> string \<Rightarrow> entry option" where
  "line_entry file_path lines = (\<lambda>(i, l).
     (case fst (try_patterns patterns l) of
        None \<Rightarrow> None
      | Some function_name \<Rightarrow>
          Some \<lparr>name = function_name,
                description = (case extract_jsdoc_comment lines i of
                                 None \<Rightarrow> no_description
                               | Some d \<Rightarrow> if d = [] then no_description else d),
                filepath = file_path,
                line = int i + 1\<rparr>))"

text \<open>The body of \<^verbatim>\<open>extract_functions_from_file\<close> after the file was read.\<close>

definition extract_functions :: "string \<Rightarrow> string list \<Rightarrow> entry list" where
  "extract_functions file_path lines =
     List.map_filter (line_entry file_path lines) (enumerate 0 lines)"

section \<open>Generating the catalog\<close>

text \<open>
  The catalog is a Python dictionary from file path to the list of entries of that
  file. Dictionaries keep insertion order, and the analyses iterate in that order, so a
  dictionary is an association list: assigning to a key that is present replaces its
  value in place, assigning to a new key appends it.
\<close>

type_synonym catalog = "(string \<times> entry list) list"

fun dict_set :: "('k \<times> 'v) list \<Rightarrow> 'k \<Rightarrow> 'v \<Rightarrow> ('k \<times> 'v) list" where
  "dict_set [] k v = [(k, v)]"
| "dict_set ((k', v') # d) k v = (if k' = k then (k, v) # d else (k', v') # dict_set d k v)"

text \<open>
  The file system as the generator sees it: \<open>fs_exists\<close> is \<^verbatim>\<open>os.path.exists\<close>,
  \<open>fs_walk\<close> lists the (directory, file name) pairs that \<^verbatim>\<open>os.walk\<close> yields, in its
  order, \<open>fs_read\<close> is opening and reading a file as UTF-8 text (\<open>Inl\<close> carries the text
  of the exception raised), \<open>fs_relpath\<close> is \<^verbatim>\<open>os.path.relpath\<close>.
\<close>

record filesystem =
  fs_exists :: "string \<Rightarrow> bool"
  fs_walk :: "string \<Rightarrow> (string \<times> string) list"
  fs_read :: "string \<Rightarrow> string + string"
  fs_relpath :: "string \<Rightarrow> string"

text \<open>\<^verbatim>\<open>content.split('\n')\<close>\<close>

fun split_lines :: "string \<Rightarrow> string list" where
  "split_lines [] = [[]]"
| "split_lines (c # cs) =
     (if c = CHR 0x0A then [] # split_lines cs
      else (case split_lines cs of [] \<Rightarrow> [[c]] | l # ls \<Rightarrow> (c # l) # ls))"

text \<open>The functions of a file and the lines printed while extracting them.\<close>

definition extract_functions_from_file :: "filesystem \<Rightarrow> string \<Rightarrow> entry list \<times> string list" where
  "extract_functions_from_file fs file_path =
     (case fs_read fs file_path of
        Inl e \<Rightarrow> ([], [''Error reading '' @ file_path @ '': '' @ e])
      | Inr content \<Rightarrow> (extract_functions file_path (split_lines content), []))"

text \<open>\<^verbatim>\<open>os.path.join(root, file)\<close> for a file name without a slash.\<close>

definition path_join :: "string \<Rightarrow> string \<Rightarrow> string" where
  "path_join dirpath f =
     (if dirpath = [] \<or> endswith dirpath ''/'' then dirpath @ f else dirpath @ ''/'' @ f)"

definition scan_directory :: "filesystem \<Rightarrow> string \<Rightarrow> string list" where
  "scan_directory fs directory =
     map (\<lambda>(dirpath, f). path_join dirpath f) (filter (\<lambda>(dirpath, f). endswith f ''.js'') (fs_walk fs directory))"

text \<open>The first loop of \<^verbatim>\<open>generate_catalog\<close>: the files to process and the warnings.\<close>

fun collect_files :: "filesystem \<Rightarrow> string list \<Rightarrow> string list \<times> string list" where
  "collect_files fs [] = ([], [])"
| "collect_files fs (source_dir # dirs) =
     (let (all_files, out) = collect_files fs dirs
      in if fs_exists fs source_dir then (scan_directory fs source_dir @ all_files, out)
         else (all_files, (''Warning: Directory '' @ [CHR 0x27] @ source_dir @ [CHR 0x27] @ '' not found'') # out))"

text \<open>The second loop: the state is the catalog built so far and the lines printed.\<close>

fun process_files :: "filesystem \<Rightarrow> string list \<Rightarrow> catalog \<times> string list \<Rightarrow> catalog \<times> string list" where
  "process_files fs [] st = st"
| "process_files fs (file_path # rest) (catalog, out) =
     (let (functions, msgs) = extract_functions_from_file fs file_path;
          out = out @ [''Processing: '' @ file_path] @ msgs;
          catalog = (if functions \<noteq> [] then dict_set catalog (fs_relpath fs file_path) functions
                     else catalog)
      in process_files fs rest (catalog, out))"

definition generate_catalog :: "filesystem \<Rightarrow> string list \<Rightarrow> catalog \<times> string list" where
  "generate_catalog fs source_dirs =
     (let (all_files, warnings) = collect_files fs source_dirs
      in process_files fs all_files ([], ''Generating method catalog...'' # warnings))"

section \<open>Duplicate analysis\<close>

record occurrence =
  occ_file :: string
  occ_description :: string
  occ_line :: int

text \<open>\<^verbatim>\<open>d[k].append(v)\<close> on a \<^verbatim>\<open>defaultdict(list)\<close>.\<close>

fun dd_append :: "('k \<times> 'v list) list \<Rightarrow> 'k \<Rightarrow> 'v \<Rightarrow> ('k \<times> 'v list) list" where
  "dd_append [] k v = [(k, [v])]"
| "dd_append ((k', vs) # d) k v =
     (if k' = k then (k', vs @ [v]) # d else (k', vs) # dd_append d k v)"

definition methods_by_name :: "catalog \<Rightarrow> (string \<times> occurrence list) list" where
  "methods_by_name catalog =
     foldl (\<lambda>d (file_path, methods).
        foldl (\<lambda>d method. dd_append d (name method)
                 \<lparr>occ_file = file_path, occ_description = description method,
                  occ_line = line method\<rparr>) d methods) [] catalog"

definition analyze_duplicates :: "catalog \<Rightarrow> (string \<times> occurrence list) list" where
  "analyze_duplicates catalog =
     filter (\<lambda>(method_name, occurrences). length occurrences > 1) (methods_by_name catalog)"

section \<open>Similarity analysis\<close>

definition category_patterns :: "(string \<times> string list) list" where
  "category_patterns =
    [(''initialization'', [''initialize'', ''init'', ''setup'', ''create'']),
     (''disposal'', [''dispose'', ''cleanup'', ''destroy'', ''remove'']),
     (''update'', [''update'', ''tick'', ''refresh'']),
     (''audio'', [''play'', ''sound'', ''audio'', ''music'']),
     (''player'', [''player'', ''spawn'', ''death'', ''kill'']),
     (''weapon'', [''weapon'', ''fire'', ''shoot'', ''reload'']),
     (''effects'', [''effect'', ''particle'', ''visual'', ''animation'']),
     (''manager'', [''manager'', ''handle'', ''process''])]"

text \<open>\<^verbatim>\<open>str.lower\<close> on the code points below 256.\<close>

definition lower_char :: "char \<Rightarrow> char" where
  "lower_char c = (let n = (of_char c :: nat)
     in if (65 \<le> n \<and> n \<le> 90) \<or> (192 \<le> n \<and> n \<le> 222 \<and> n \<noteq> 215) then char_of (n + 32) else c)"

definition lower :: "string \<Rightarrow> string" where
  "lower s = map lower_char s"

text \<open>\<^verbatim>\<open>p in s\<close> on strings: \<open>p\<close> occurs in \<open>s\<close> as a contiguous piece.\<close>

fun contains :: "string \<Rightarrow> string \<Rightarrow> bool" where
  "contains [] p = (p = [])"
| "contains (c # cs) p = (startswith (c # cs) p \<or> contains cs p)"

definition keyword_hit :: "string list \<Rightarrow> entry \<Rightarrow> bool" where
  "keyword_hit keywords method =
     list_ex (\<lambda>keyword. contains (lower (name method)) (lower keyword)
                       \<or> contains (lower (description method)) (lower keyword)) keywords"

definition classify :: "(string \<times> entry list) list \<Rightarrow> string \<Rightarrow> entry \<Rightarrow> (string \<times> entry list) list" where
  "classify similar_groups file_path method =
     (let method_info = \<lparr>name = name method, description = description method,
                         filepath = file_path, line = line method\<rparr>
      in foldl (\<lambda>groups (category, keywords).
                  if keyword_hit keywords method then dd_append groups category method_info
                  else groups) similar_groups category_patterns)"

definition analyze_similar_functionality :: "catalog \<Rightarrow> (string \<times> entry list) list" where
  "analyze_similar_functionality catalog =
     foldl (\<lambda>groups (file_path, methods).
        foldl (\<lambda>groups method. classify groups file_path method) groups methods) [] catalog"

text \<open>Reading a \<^verbatim>\<open>defaultdict(list)\<close>: a missing key has the empty list.\<close>

definition dd_get :: "('k \<times> 'v list) list \<Rightarrow> 'k \<Rightarrow> 'v list" where
  "dd_get d k = (case map_of d k of None \<Rightarrow> [] | Some vs \<Rightarrow> vs)"

text \<open>
  The reading of the specification: the first matcher, in the fixed order, that matches
  the line, with its position and the name it captures.
\<close>

fun first_match :: "(string \<Rightarrow> string option) list \<Rightarrow> string \<Rightarrow> (nat \<times> string) option" where
  "first_match [] l = None"
| "first_match (p # ps) l =
     (case p l of Some n \<Rightarrow> Some (0, n)
      | None \<Rightarrow> map_option (\<lambda>(k, n). (Suc k, n)) (first_match ps l))"

text \<open>A small file system for concrete runs.\<close>

definition fs_example :: filesystem where
  "fs_example = \<lparr>fs_exists = (\<lambda>d. d = ''src''),
     fs_walk = (\<lambda>d. if d = ''src'' then [(''src'', ''a.js''), (''src'', ''b.js''), (''src'', ''c.txt'')] else []),
     fs_read = (\<lambda>p. if p = ''src/a.js'' then Inr (''if (x) {'' @ [CHR 0x0A] @ ''foo() {'')
                     else if p = ''src/b.js'' then Inl ''denied'' else Inr ''bar() {''),
     fs_relpath = (\<lambda>p. p)\<rparr>"

text \<open>
  The lines the upward scan passes over before it meets a comment terminator: blank
  lines and single-line comments (a line ending in \<^verbatim>\<open>*/\<close> is a terminator first).
\<close>

definition skippable :: "string \<Rightarrow> bool" where
  "skippable l = (\<not> endswith (strip l) ''*/'' \<and> (strip l = [] \<or> startswith (strip l) ''//''))"

text \<open>
  The reading of the specification for the comment text: on every line of the comment
  the open marker, the close marker and one leading \<^verbatim>\<open>*\<close> are stripped, lines that
  become empty are discarded, the rest is joined by single spaces.
\<close>

definition strip_markers :: "string \<Rightarrow> string" where
  "strip_markers l =
     (let s = strip l;
          s = (if startswith s ''/**'' then strip (drop 3 s) else s);
          s = (if endswith s ''*/'' then strip (take (length s - 2) s) else s)
      in if startswith s ''*'' then strip (tl s) else s)"

definition spec_description :: "string list \<Rightarrow> string" where
  "spec_description comment = join '' '' (filter (\<lambda>s. s \<noteq> []) (map strip_markers comment))"

text \<open>
  The reading of the specification for the duplicate analysis: the catalog flattened in
  discovery order (file scan order, then in-file order), the occurrences of a name in
  that order, and the names in the order of their first occurrence.
\<close>

definition all_methods :: "catalog \<Rightarrow> (string \<times> occurrence) list" where
  "all_methods catalog =
     concat (map (\<lambda>(file_path, methods).
        map (\<lambda>method. (name method,
               \<lparr>occ_file = file_path, occ_description = description method,
                occ_line = line method\<rparr>)) methods) catalog)"

definition occurrences_of :: "catalog \<Rightarrow> string \<Rightarrow> occurrence list" where
  "occurrences_of catalog n = map snd (filter (\<lambda>(k, v). k = n) (all_methods catalog))"

definition occurrence_count :: "catalog \<Rightarrow> string \<Rightarrow> nat" where
  "occurrence_count catalog n = count_list (map fst (all_methods catalog)) n"

fun first_seen :: "'a list \<Rightarrow> 'a list" where
  "first_seen [] = []"
| "first_seen (x # xs) = x # filter (\<lambda>y. y \<noteq> x) (first_seen xs)"

text \<open>A small catalog for concrete runs.\<close>

definition catalog_example :: catalog where
  "catalog_example =
    [(''src/a.js'',
       [\<lparr>name = ''update'', description = ''Advance the simulation'', filepath = ''src/a.js'', line = 3\<rparr>,
        \<lparr>name = ''initAudioEffect'', description = ''Emits a particle burst'', filepath = ''src/a.js'', line = 9\<rparr>]),
     (''src/b.js'',
       [\<lparr>name = ''update'', description = no_description, filepath = ''src/b.js'', line = 5\<rparr>])]"

text \<open>
  The reading of the specification for the similarity analysis. Letter case is given by
  a table of the capital letters with their small letters: the 26 letters of the
  alphabet, and the accented capitals of Latin-1 (code points C0 to DE without D7, the
  multiplication sign) with the small letters 32 places above them. Two characters
  are the same letter when they are equal or one is the capital of the other; two
  strings are equal up to letter case when they are so position by position. A keyword
  is a case-insensitive substring of a text when some contiguous piece of the text
  equals the keyword up to letter case; an entry belongs to a category when some
  keyword of the category is such a substring of its name or of its description.
  \<open>all_infos\<close> is the catalog flattened in discovery order, each entry with the path of
  its file.
\<close>

definition letter_cases :: "(char \<times> char) list" where
  "letter_cases =
     zip ''ABCDEFGHIJKLMNOPQRSTUVWXYZ'' ''abcdefghijklmnopqrstuvwxyz''
     @ zip
     [
      CHR 0xC0, CHR 0xC1, CHR 0xC2, CHR 0xC3, CHR 0xC4, CHR 0xC5, CHR 0xC6, CHR 0xC7,
      CHR 0xC8, CHR 0xC9, CHR 0xCA, CHR 0xCB, CHR 0xCC, CHR 0xCD, CHR 0xCE, CHR 0xCF,
      CHR 0xD0, CHR 0xD1, CHR 0xD2, CHR 0xD3, CHR 0xD4, CHR 0xD5, CHR 0xD6, CHR 0xD8,
      CHR 0xD9, CHR 0xDA, CHR 0xDB, CHR 0xDC, CHR 0xDD, CHR 0xDE]
     [
      CHR 0xE0, CHR 0xE1, CHR 0xE2, CHR 0xE3, CHR 0xE4, CHR 0xE5, CHR 0xE6, CHR 0xE7,
      CHR 0xE8, CHR 0xE9, CHR 0xEA, CHR 0xEB, CHR 0xEC, CHR 0xED, CHR 0xEE, CHR 0xEF,
      CHR 0xF0, CHR 0xF1, CHR 0xF2, CHR 0xF3, CHR 0xF4, CHR 0xF5, CHR 0xF6, CHR 0xF8,
      CHR 0xF9, CHR 0xFA, CHR 0xFB, CHR 0xFC, CHR 0xFD, CHR 0xFE]"

definition same_letter :: "char \<Rightarrow> char \<Rightarrow> bool" where
  "same_letter a b \<longleftrightarrow> a = b \<or> (a, b) \<in> set letter_cases \<or> (b, a) \<in> set letter_cases"

definition ci_equal :: "string \<Rightarrow> string \<Rightarrow> bool" where
  "ci_equal s t = list_all2 same_letter s t"

definition ci_substring :: "string \<Rightarrow> string \<Rightarrow> bool" where
  "ci_substring keyword text =
     (\<exists>before piece after. text = before @ piece @ after \<and> ci_equal piece keyword)"

definition in_category :: "string list \<Rightarrow> entry \<Rightarrow> bool" where
  "in_category keywords e =
     (\<exists>keyword \<in> set keywords. ci_substring keyword (name e) \<or> ci_substring keyword (description e))"

definition all_infos :: "catalog \<Rightarrow> entry list" where
  "all_infos catalog =
     concat (map (\<lambda>(file_path, methods).
        map (\<lambda>method. \<lparr>name = name method, description = description method,
                         filepath = file_path, line = line method\<rparr>) methods) catalog)"

section \<open>Numbers\<close>

text \<open>
  \<^verbatim>\<open>str\<close> of an integer. Python floats are IEEE 754 binary64 numbers. A finite
  non-negative float is modelled by a pair \<open>(m, e)\<close> of integers that denotes
  \<open>m \<sqdot> 2\<^sup>e\<close>, and an operation by the exact result rounded to the nearest float, ties
  to the even significand: 53 significant bits, and multiples of \<open>2\<^sup>-\<^sup>1\<^sup>0\<^sup>7\<^sup>4\<close> in the
  subnormal range. The numbers of the summary are non-negative and far below the
  overflow threshold.
\<close>

fun str_nat :: "nat \<Rightarrow> string" where
  "str_nat n = (if n < 10 then [''0123456789'' ! n]
                else str_nat (n div 10) @ [''0123456789'' ! (n mod 10)])"

declare str_nat.simps [simp del]

definition str_int :: "int \<Rightarrow> string" where
  "str_int i = (if i < 0 then ''-'' @ str_nat (nat (- i)) else str_nat (nat i))"

type_synonym float = "int \<times> int"

definition pow2 :: "int \<Rightarrow> rat" where
  "pow2 k = (if 0 \<le> k then 2 ^ nat k else 1 / 2 ^ nat (- k))"

definition float_val :: "float \<Rightarrow> rat" where
  "float_val x = of_int (fst x) * pow2 (snd x)"

function bit_length :: "int \<Rightarrow> nat" where
  "bit_length n = (if n \<le> 0 then 0 else Suc (bit_length (n div 2)))"
  by pat_completeness auto
termination
  by (relation "measure nat") auto

declare bit_length.simps [simp del]

text \<open>The integer \<open>k\<close> with \<open>2\<^sup>k \<le> a / b < 2\<^sup>k\<^sup>+\<^sup>1\<close>, for positive \<open>a\<close> and \<open>b\<close>.\<close>

definition ilog2 :: "int \<Rightarrow> int \<Rightarrow> int" where
  "ilog2 a b = (let k = int (bit_length a) - int (bit_length b)
     in if (if 0 \<le> k then b * 2 ^ nat k \<le> a else b \<le> a * 2 ^ nat (- k)) then k else k - 1)"

text \<open>The integer nearest to \<open>n / d\<close>, ties to even, for \<open>n \<ge> 0\<close> and \<open>d > 0\<close>.\<close>

definition round_half_even :: "int \<Rightarrow> int \<Rightarrow> int" where
  "round_half_even n d = (let q = n div d; r = n mod d
     in if 2 * r < d then q else if d < 2 * r then q + 1
        else if even q then q else q + 1)"

text \<open>The float nearest to \<open>a / b\<close>, for \<open>a \<ge> 0\<close> and \<open>b > 0\<close>.\<close>

definition round_ratio :: "int \<Rightarrow> int \<Rightarrow> float" where
  "round_ratio a b = (if a = 0 then (0, 0)
     else let e = max (ilog2 a b - 52) (- 1074)
          in (if 0 \<le> e then round_half_even a (b * 2 ^ nat e)
              else round_half_even (a * 2 ^ nat (- e)) b, e))"

datatype py_error = ZeroDivisionError | FileNotFoundError string | JSONDecodeError string

text \<open>\<^verbatim>\<open>a / b\<close> on non-negative integers: the correctly rounded quotient.\<close>

definition true_divide :: "int \<Rightarrow> int \<Rightarrow> py_error + float" where
  "true_divide a b = (if b = 0 then Inl ZeroDivisionError else Inr (round_ratio a b))"

text \<open>\<^verbatim>\<open>x * n\<close> for a float \<open>x\<close> and a small non-negative integer \<open>n\<close>, which converts
  to a float exactly.\<close>

definition float_mul_int :: "float \<Rightarrow> int \<Rightarrow> float" where
  "float_mul_int x n = (let m = fst x * n; e = snd x
     in if 0 \<le> e then round_ratio (m * 2 ^ nat e) 1 else round_ratio m (2 ^ nat (- e)))"

text \<open>
  \<^verbatim>\<open>format(x, '.1f')\<close>: the exact value of the float rounded to one decimal, ties to
  even. \<open>tenths\<close> is that decimal times ten.
\<close>

definition tenths :: "float \<Rightarrow> int" where
  "tenths x = (let m = fst x * 10; e = snd x
     in if 0 \<le> e then m * 2 ^ nat e else round_half_even m (2 ^ nat (- e)))"

definition format_1f :: "float \<Rightarrow> string" where
  "format_1f x = (let n = tenths x in str_int (n div 10) @ ''.'' @ str_int (n mod 10))"

section \<open>The analysis entry point\<close>

text \<open>
  \<open>load_catalog\<close> opens the fixed path in the store of files and hands the text to
  \<^verbatim>\<open>json.load\<close>, which is a parameter here; nothing catches what either raises.
\<close>

definition load_catalog :: "(string \<Rightarrow> py_error + catalog) \<Rightarrow> (string \<rightharpoonup> string) \<Rightarrow> py_error + catalog" where
  "load_catalog json_load files =
     (case files ''method_catalog.json'' of
        None \<Rightarrow> Inl (FileNotFoundError ''method_catalog.json'')
      | Some content \<Rightarrow> json_load content)"

definition total_methods :: "catalog \<Rightarrow> nat" where
  "total_methods catalog = sum_list (map (\<lambda>(file_path, methods). length methods) catalog)"

text \<open>
  The summary block of \<^verbatim>\<open>main\<close>: the lines printed, and the exception that ends the
  run, if any. The rate is computed inside the last \<^verbatim>\<open>print\<close>, so that line is not
  printed when the division raises.
\<close>

definition summary :: "catalog \<Rightarrow> string list \<times> py_error option" where
  "summary catalog =
     (let duplicates = analyze_duplicates catalog;
          total_files = length catalog;
          total_methods = total_methods catalog;
          duplicate_methods = length duplicates;
          out = [CHR 0x0A # ''=== SUMMARY ==='',
                 ''Total files: '' @ str_int (int total_files),
                 ''Total methods: '' @ str_int (int total_methods),
                 ''Duplicate method names: '' @ str_int (int duplicate_methods)]
      in case true_divide (int duplicate_methods) (int total_methods) of
           Inl e \<Rightarrow> (out, Some e)
         | Inr q \<Rightarrow> (out @ [''Duplication rate: '' @ format_1f (float_mul_int q 100) @ ''%''], None))"

text \<open>
  \<^verbatim>\<open>main\<close>: \<open>reports\<close> stands for the lines that the three report printers print for
  a catalog; they raise nothing.
\<close>

definition main :: "(string \<Rightarrow> py_error + catalog) \<Rightarrow> (catalog \<Rightarrow> string list) \<Rightarrow> (string \<rightharpoonup> string)
    \<Rightarrow> string list \<times> py_error option" where
  "main json_load reports files =
     (case load_catalog json_load files of
        Inl e \<Rightarrow> ([], Some e)
      | Inr catalog \<Rightarrow> (let (out, err) = summary catalog in (reports catalog @ out, err)))"

text \<open>A catalog with 100 entries under 7 names.\<close>

definition catalog_hundred :: catalog where
  "catalog_hundred =
     [(''a.js'', map (\<lambda>i. \<lparr>name = [''abcdefg'' ! (i mod 7)], description = no_description,
                           filepath = ''a.js'', line = int i + 1\<rparr>) [0..<100])]"

text \<open>A catalog with 80 entries under \<open>k\<close> names, for \<open>0 < k \<le> 23\<close>.\<close>

definition catalog_eighty :: "nat \<Rightarrow> catalog" where
  "catalog_eighty k =
     [(''a.js'', map (\<lambda>i. \<lparr>name = [''abcdefghijklmnopqrstuvw'' ! (i mod k)],
                           description = no_description,
                           filepath = ''a.js'', line = int i + 1\<rparr>) [0..<80])]"

text \<open>A catalog with 16 entries, two of which share their name.\<close>

definition catalog_sixteen :: catalog where
  "catalog_sixteen =
     [(''a.js'', map (\<lambda>i. \<lparr>name = [''abcdefghijklmnoa'' ! i], description = no_description,
                           filepath = ''a.js'', line = int i + 1\<rparr>) [0..<16])]"

section \<open>Properties of the matchers\<close>

lemma isspace_not_ident_char: "isspace c \<Longrightarrow> \<not> ident_char c"
  by (auto simp: isspace_def ident_char_def ident_start_def Let_def)

lemma ident_start_not_space: "ident_start c \<Longrightarrow> \<not> isspace c"
  by (auto simp: isspace_def ident_start_def Let_def)

lemma ident_start_not_paren: "ident_start c \<Longrightarrow> c \<noteq> CHR ''('' \<and> c \<noteq> CHR ''=''"
  by (auto simp: ident_start_def Let_def)

lemma ws_star_space: "isspace c \<Longrightarrow> ws_star (c # cs) = ws_star cs"
  by (simp add: ws_star_def)

lemma ws_star_ident_start: "ident_start c \<Longrightarrow> ws_star (c # cs) = c # cs"
  by (simp add: ws_star_def ident_start_not_space)

lemma match_method_shape:
  "match_method l = Some m \<Longrightarrow> \<exists>r. ident (ws_star l) = Some (m, r) \<and> startswith (ws_star r) ''(''"
  by (auto simp: match_method_def named_call_def params_def literal_def brace_def
      split: Option.bind_splits if_splits)

lemma match_arrow_shape:
  "match_arrow l = Some m \<Longrightarrow> \<exists>r. ident (ws_star l) = Some (m, r) \<and> startswith (ws_star r) ''=''"
  by (auto simp: match_arrow_def literal_def split: Option.bind_splits if_splits)

lemma keyword_then_space:
  assumes "literal kw s = Some r" "ws_plus r = Some t" "\<forall>c\<in>set kw. ident_char c" "kw \<noteq> []" "ident_start (hd kw)"
  shows "ident s = Some (kw, r) \<and> ws_star r = t"
proof -
  from assms(1) have s: "s = kw @ r"
    by (auto simp: literal_def startswith_def split: if_splits) (metis append_take_drop_id)
  from assms(2) obtain c cs where r: "r = c # cs" "isspace c" "t = ws_star cs"
    by (auto simp: ws_plus_def split: list.splits if_splits)
  obtain k ks where kw: "kw = k # ks" using assms(4) by (cases kw) auto
  have "takeWhile ident_char (ks @ c # cs) = ks" "dropWhile ident_char (ks @ c # cs) = c # cs"
    using assms(3) r(2) kw isspace_not_ident_char by (auto simp: takeWhile_append2 dropWhile_append2 takeWhile_tail)
  then show ?thesis using s r kw assms(5) by (simp add: ident_def ws_star_space)
qed

lemma match_function_shape:
  assumes "match_function l = Some m"
  shows "\<exists>r c cs. ident (ws_star l) = Some (''function'', r) \<and> ws_star r = c # cs \<and> ident_start c"
proof -
  from assms obtain r t where a: "literal ''function'' (ws_star l) = Some r" "ws_plus r = Some t" "named_call t = Some m"
    by (auto simp: match_function_def split: Option.bind_splits)
  have "ident (ws_star l) = Some (''function'', r) \<and> ws_star r = t"
    by (rule keyword_then_space[OF a(1,2)]) (simp_all add: ident_char_def ident_start_def)
  moreover from a(3) obtain c cs where "t = c # cs" "ident_start c"
    by (auto simp: named_call_def ident_def split: Option.bind_splits list.splits if_splits)
  ultimately show ?thesis by blast
qed

lemma match_async_shape:
  assumes "match_async l = Some m"
  shows "match_method l = Some m \<or> (\<exists>r c cs. ident (ws_star l) = Some (''async'', r) \<and> ws_star r = c # cs \<and> ident_start c)"
proof (cases "Option.bind (Option.bind (literal ''async'' (ws_star l)) ws_plus) named_call")
  case None
  then show ?thesis using assms by (simp add: match_async_def match_method_def)
next
  case (Some n)
  then obtain r t where a: "literal ''async'' (ws_star l) = Some r" "ws_plus r = Some t" "named_call t = Some n"
    by (auto split: Option.bind_splits)
  have "ident (ws_star l) = Some (''async'', r) \<and> ws_star r = t"
    by (rule keyword_then_space[OF a(1,2)]) (simp_all add: ident_char_def ident_start_def)
  moreover from a(3) obtain c cs where "t = c # cs" "ident_start c"
    by (auto simp: named_call_def ident_def split: Option.bind_splits list.splits if_splits)
  ultimately show ?thesis by blast
qed


lemma try_patterns_accepts:
  "fst (try_patterns ps l) = Some n \<Longrightarrow> n \<notin> set stoplist \<and> (\<exists>p\<in>set ps. p l = Some n)"
  by (induction ps) (auto split: option.splits if_splits prod.splits)

lemma try_patterns_none:
  "\<forall>p\<in>set ps. \<forall>n. p l = Some n \<longrightarrow> n \<in> set stoplist \<Longrightarrow> try_patterns ps l = (None, length ps)"
  by (induction ps) (auto split: option.splits if_splits prod.splits)

lemma paren_not_eq: "startswith t ''('' \<Longrightarrow> startswith t ''='' \<Longrightarrow> False"
  by (auto simp: startswith_def)

lemma ident_start_not_token:
  "ident_start c \<Longrightarrow> \<not> startswith (c # cs) ''('' \<and> \<not> startswith (c # cs) ''=''"
  by (auto simp: startswith_def ident_start_def Let_def)

lemma method_excludes_function: "match_method l = Some n \<Longrightarrow> match_function l = None"
proof (rule ccontr)
  assume a: "match_method l = Some n" and "match_function l \<noteq> None"
  then obtain m where "match_function l = Some m" by auto
  from match_function_shape[OF this] match_method_shape[OF a] show False
    using ident_start_not_token by force
qed

lemma method_excludes_arrow: "match_method l = Some n \<Longrightarrow> match_arrow l = None"
proof (rule ccontr)
  assume a: "match_method l = Some n" and "match_arrow l \<noteq> None"
  then obtain m where "match_arrow l = Some m" by auto
  from match_arrow_shape[OF this] match_method_shape[OF a] show False
    using paren_not_eq by force
qed

lemma method_async_same: "match_method l = Some n \<Longrightarrow> match_async l = Some m \<Longrightarrow> m = n"
  using match_async_shape[of l m] match_method_shape[of l n] ident_start_not_token by force

lemma function_excludes_arrow: "match_function l = Some n \<Longrightarrow> match_arrow l = None"
proof (rule ccontr)
  assume a: "match_function l = Some n" and "match_arrow l \<noteq> None"
  then obtain m where "match_arrow l = Some m" by auto
  from match_arrow_shape[OF this] match_function_shape[OF a] show False
    using ident_start_not_token by force
qed

lemma function_excludes_async: "match_function l = Some n \<Longrightarrow> match_async l = None"
proof (rule ccontr)
  assume a: "match_function l = Some n" and "match_async l \<noteq> None"
  then obtain m where m: "match_async l = Some m" by auto
  from match_async_shape[OF m] show False
  proof
    assume "match_method l = Some m"
    with method_excludes_function a show False by fastforce
  next
    assume "\<exists>r c cs. ident (ws_star l) = Some (''async'', r) \<and> ws_star r = c # cs \<and> ident_start c"
    with match_function_shape[OF a] show False by auto
  qed
qed

lemma arrow_excludes_async: "match_arrow l = Some n \<Longrightarrow> match_async l = None"
proof (rule ccontr)
  assume a: "match_arrow l = Some n" and "match_async l \<noteq> None"
  then obtain m where m: "match_async l = Some m" by auto
  from match_async_shape[OF m] show False
  proof
    assume "match_method l = Some m"
    with method_excludes_arrow a show False by fastforce
  next
    assume "\<exists>r c cs. ident (ws_star l) = Some (''async'', r) \<and> ws_star r = c # cs \<and> ident_start c"
    with match_arrow_shape[OF a] show False using ident_start_not_token by force
  qed
qed

lemma try_patterns_first_match:
  "fst (try_patterns patterns l) =
     (case first_match patterns l of None \<Rightarrow> None
      | Some (k, n) \<Rightarrow> if n \<in> set stoplist then None else Some n)"
proof (cases "match_method l")
  case None
  note mm = None
  show ?thesis
  proof (cases "match_function l")
    case None
    note mf = None
    show ?thesis
    proof (cases "match_arrow l")
      case None
      then show ?thesis using mm mf
        by (auto simp: patterns_def split: option.splits prod.splits)
    next
      case (Some n)
      with arrow_excludes_async[OF Some] show ?thesis using mm mf
        by (auto simp: patterns_def split: option.splits prod.splits)
    qed
  next
    case (Some n)
    with function_excludes_arrow[OF Some] function_excludes_async[OF Some] show ?thesis using mm
      by (auto simp: patterns_def split: option.splits prod.splits)
  qed
next
  case (Some n)
  with method_excludes_function[OF Some] method_excludes_arrow[OF Some] method_async_same[OF Some]
  show ?thesis
    by (auto simp: patterns_def split: option.splits prod.splits)
qed

lemma try_patterns_count:
  "first_match ps l = Some (k, n) \<Longrightarrow> n \<notin> set stoplist \<Longrightarrow> try_patterns ps l = (Some n, Suc k)"
  by (induction ps arbitrary: k) (auto split: option.splits prod.splits)

lemma line_entry_line: "line_entry fp ls (i, l) = Some e \<Longrightarrow> line e = int i + 1"
  by (auto simp: line_entry_def split: option.splits)

lemma line_entry_name:
  "line_entry fp ls (i, l) = Some e \<Longrightarrow> fst (try_patterns patterns l) = Some (name e)"
  by (auto simp: line_entry_def split: option.splits)

lemma entries_line_bound:
  "e \<in> set (List.map_filter (line_entry fp ls) (enumerate n xs)) \<Longrightarrow> int n < line e"
proof (induction xs arbitrary: n)
  case Nil
  then show ?case by (simp add: List.map_filter_simps)
next
  case (Cons x xs)
  then show ?case
    by (fastforce simp: List.map_filter_simps split: option.splits dest: line_entry_line)
qed

lemma entries_one_per_line:
  "length (filter (\<lambda>e. line e = v) (List.map_filter (line_entry fp ls) (enumerate n xs))) \<le> 1"
proof (induction xs arbitrary: n)
  case Nil
  then show ?case by (simp add: List.map_filter_simps)
next
  case (Cons x xs)
  show ?case
  proof (cases "line_entry fp ls (n, x)")
    case None
    then show ?thesis using Cons.IH[of "Suc n"] by (simp add: List.map_filter_simps)
  next
    case (Some e)
    have le: "line e = int n + 1" using Some by (rule line_entry_line)
    show ?thesis
    proof (cases "line e = v")
      case True
      have "filter (\<lambda>e. line e = v) (List.map_filter (line_entry fp ls) (enumerate (Suc n) xs)) = []"
        using entries_line_bound[of _ fp ls "Suc n" xs] True le by (fastforce simp: filter_empty_conv)
      then show ?thesis using Some True by (simp add: List.map_filter_simps)
    next
      case False
      then show ?thesis using Some Cons.IH[of "Suc n"] by (simp add: List.map_filter_simps)
    qed
  qed
qed

lemma map_filter_mem: "e \<in> set (List.map_filter f xs) \<Longrightarrow> \<exists>x\<in>set xs. f x = Some e"
  by (auto simp: List.map_filter_def)

lemma first_match_of_accepted:
  assumes "fst (try_patterns patterns l) = Some n"
  shows "\<exists>k. first_match patterns l = Some (k, n)"
  using assms unfolding try_patterns_first_match
  by (auto split: option.splits if_splits)

lemma entry_first_match:
  assumes "e \<in> set (extract_functions file_path lines)"
  shows "\<exists>k l. (nat (line e - 1), l) \<in> set (enumerate 0 lines)
            \<and> first_match patterns l = Some (k, name e)"
proof -
  from assms obtain i l where il: "(i, l) \<in> set (enumerate 0 lines)"
      and le: "line_entry file_path lines (i, l) = Some e"
    unfolding extract_functions_def by (fastforce dest: map_filter_mem)
  from line_entry_line[OF le] have "nat (line e - 1) = i" by simp
  moreover from first_match_of_accepted[OF line_entry_name[OF le]]
  obtain k where "first_match patterns l = Some (k, name e)" ..
  ultimately show ?thesis using il by blast
qed

text \<open>
  C4 (as amended). The loop over the matchers returns the name captured by the first
  matcher that matches the line, unless that name is a stoplisted keyword, in which case
  the line gives nothing. When the first match is accepted at position \<open>k\<close>, exactly
  \<open>k + 1\<close> matchers were searched: none after it. Every line contributes at most one
  entry, and the name of an entry is the one captured by the first matcher that matches
  its line.
\<close>

theorem first_accepted_match_wins:
  "fst (try_patterns patterns l) =
     (case first_match patterns l of None \<Rightarrow> None
      | Some (k, n) \<Rightarrow> if n \<in> set stoplist then None else Some n)
   \<and> (\<forall>k n. first_match patterns l = Some (k, n) \<and> n \<notin> set stoplist
          \<longrightarrow> try_patterns patterns l = (Some n, Suc k))
   \<and> length (filter (\<lambda>e. line e = int i + 1) (extract_functions file_path lines)) \<le> 1
   \<and> (\<forall>e \<in> set (extract_functions file_path lines). \<exists>k l.
          (nat (line e - 1), l) \<in> set (enumerate 0 lines) \<and> first_match patterns l = Some (k, name e))"
proof (intro conjI allI impI ballI)
  show "fst (try_patterns patterns l) =
     (case first_match patterns l of None \<Rightarrow> None
      | Some (k, n) \<Rightarrow> if n \<in> set stoplist then None else Some n)"
    by (rule try_patterns_first_match)
next
  fix k n assume "first_match patterns l = Some (k, n) \<and> n \<notin> set stoplist"
  then show "try_patterns patterns l = (Some n, Suc k)"
    by (simp add: try_patterns_count)
next
  show "length (filter (\<lambda>e. line e = int i + 1) (extract_functions file_path lines)) \<le> 1"
    unfolding extract_functions_def by (rule entries_one_per_line)
next
  fix e assume "e \<in> set (extract_functions file_path lines)"
  then show "\<exists>k l. (nat (line e - 1), l) \<in> set (enumerate 0 lines)
                 \<and> first_match patterns l = Some (k, name e)"
    by (rule entry_first_match)
qed

theorem first_accepted_match_wins_witness:
  "first_match patterns ''  async foo(a, b) {'' = Some (3, ''foo'') \<and> ''foo'' \<notin> set stoplist
   \<and> try_patterns patterns ''  async foo(a, b) {'' = (Some ''foo'', 4)
   \<and> \<lparr>name = ''foo'', description = no_description, filepath = ''a.js'', line = 1\<rparr>
        \<in> set (extract_functions ''a.js'' [''  async foo(a, b) {''])"
proof -
  have a: "first_match patterns ''  async foo(a, b) {'' = Some (3, ''foo'')" by code_simp
  have b: "''foo'' \<notin> set stoplist" by code_simp
  have c: "\<lparr>name = ''foo'', description = no_description, filepath = ''a.js'', line = 1\<rparr>
        \<in> set (extract_functions ''a.js'' [''  async foo(a, b) {''])" by code_simp
  from first_accepted_match_wins[of "''  async foo(a, b) {''" 0 "''a.js''" "[''  async foo(a, b) {'']"]
  have "\<forall>k n. first_match patterns ''  async foo(a, b) {'' = Some (k, n) \<and> n \<notin> set stoplist
          \<longrightarrow> try_patterns patterns ''  async foo(a, b) {'' = (Some n, Suc k)"
    by blast
  with a b have "try_patterns patterns ''  async foo(a, b) {'' = (Some ''foo'', Suc 3)" by blast
  with a b c show ?thesis by simp
qed

text \<open>
  C4 as stated fails on \<^verbatim>\<open>if (x) {\<close>: the first matcher matches (capturing
  \<^verbatim>\<open>if\<close>), and the loop still searches all four matchers.
\<close>

theorem second_matcher_attempted_counterexample:
  "first_match patterns ''if (x) {'' = Some (0, ''if'')
   \<and> try_patterns patterns ''if (x) {'' = (None, 4)"
  by code_simp

lemma extract_functions_names:
  "e \<in> set (extract_functions file_path lines) \<Longrightarrow> name e \<notin> set stoplist"
proof -
  assume "e \<in> set (extract_functions file_path lines)"
  then obtain i l where "line_entry file_path lines (i, l) = Some e"
    unfolding extract_functions_def by (fastforce dest: map_filter_mem)
  from try_patterns_accepts[OF line_entry_name[OF this]] show ?thesis by simp
qed

text \<open>
  C5. Whatever the file system returns for a file, none of the entries extracted from
  it is named by a control-flow keyword.
\<close>

theorem stoplist_never_cataloged:
  "e \<in> set (fst (extract_functions_from_file fs file_path))
   \<Longrightarrow> name e \<notin> {''if'', ''for'', ''while'', ''switch'', ''catch'', ''else''}"
  using extract_functions_names[of e file_path]
  by (auto simp: extract_functions_from_file_def stoplist_def split: sum.splits)

theorem stoplist_never_cataloged_witness:
  "\<lparr>name = ''foo'', description = no_description, filepath = ''src/a.js'', line = 2\<rparr>
     \<in> set (fst (extract_functions_from_file fs_example ''src/a.js''))
   \<and> ''foo'' \<notin> {''if'', ''for'', ''while'', ''switch'', ''catch'', ''else''}"
proof -
  have a: "\<lparr>name = ''foo'', description = no_description, filepath = ''src/a.js'', line = 2\<rparr>
     \<in> set (fst (extract_functions_from_file fs_example ''src/a.js''))" by code_simp
  from stoplist_never_cataloged[OF a] a show ?thesis by simp
qed

section \<open>Properties of the documentation comment scan\<close>

lemma lstrip_fixed: "s = [] \<or> \<not> isspace (hd s) \<Longrightarrow> lstrip s = s"
  by (cases s) (auto simp: lstrip_def)

lemma rstrip_fixed: "s = [] \<or> \<not> isspace (last s) \<Longrightarrow> rstrip s = s"
  by (cases s rule: rev_cases) (auto simp: rstrip_def)

lemma lstrip_ends: "lstrip s = [] \<or> \<not> isspace (hd (lstrip s))"
  unfolding lstrip_def using hd_dropWhile by blast

lemma rstrip_ends: "rstrip s = [] \<or> \<not> isspace (last (rstrip s))"
  unfolding rstrip_def using hd_dropWhile[of isspace "rev s"] by (auto simp: last_rev)

lemma rstrip_hd: "rstrip s \<noteq> [] \<Longrightarrow> hd (rstrip s) = hd s"
proof -
  assume a: "rstrip s \<noteq> []"
  have "rev s = takeWhile isspace (rev s) @ dropWhile isspace (rev s)" by simp
  then have "s = rstrip s @ rev (takeWhile isspace (rev s))"
    unfolding rstrip_def by (metis rev_append rev_rev_ident)
  with a show ?thesis by (metis hd_append2)
qed

lemma strip_ends: "strip s = [] \<or> (\<not> isspace (hd (strip s)) \<and> \<not> isspace (last (strip s)))"
proof (cases "strip s = []")
  case True then show ?thesis by simp
next
  case False
  then have ne: "rstrip (lstrip s) \<noteq> []" by (simp add: strip_def)
  then have "lstrip s \<noteq> []" by (auto simp: rstrip_def)
  with lstrip_ends[of s] rstrip_hd[OF ne] rstrip_ends[of "lstrip s"] ne
  show ?thesis by (auto simp: strip_def)
qed

lemma strip_fixed: "s = [] \<or> (\<not> isspace (hd s) \<and> \<not> isspace (last s)) \<Longrightarrow> strip s = s"
  unfolding strip_def using lstrip_fixed[of s] rstrip_fixed[of s] by auto

lemma strip_strip [simp]: "strip (strip s) = strip s"
  using strip_ends[of s] by (intro strip_fixed) auto

lemma clean_line_strip [simp]: "clean_line (strip l) = clean_line l"
  by (simp add: clean_line_def)

lemma map_filter_map: "List.map_filter f (map g xs) = List.map_filter (f \<circ> g) xs"
  by (simp add: List.map_filter_def filter_map comp_def)

lemma clean_up_strip: "clean_up (map strip xs) = clean_up xs"
  by (simp add: clean_up_def map_filter_map comp_def)

lemma scan_up_skip:
  "\<forall>l\<in>set sk. skippable l \<Longrightarrow> scan_up (sk @ rest) = scan_up rest"
  by (induction sk) (auto simp: skippable_def Let_def)

lemma collect_up_no_opener:
  "\<forall>l\<in>set ups. \<not> startswith (strip l) ''/**'' \<Longrightarrow> collect_up ups acc = rev (map strip ups) @ acc"
  by (induction ups arbitrary: acc) (auto simp: Let_def)

lemma collect_up_opener:
  "\<forall>l\<in>set mid. \<not> startswith (strip l) ''/**'' \<Longrightarrow> startswith (strip opener) ''/**''
   \<Longrightarrow> collect_up (mid @ opener # rest) acc = strip opener # rev (map strip mid) @ acc"
  by (induction mid arbitrary: acc) (auto simp: Let_def)

lemma scan_up_terminator:
  "endswith (strip t) ''*/'' \<Longrightarrow> scan_up (t # ups) = collect_up ups [strip t]"
  by (simp add: Let_def)

lemma line_entry_description:
  "line_entry file_path lines (i, l) = Some e \<Longrightarrow> extract_jsdoc_comment lines i = Some d
   \<Longrightarrow> description e = (if d = [] then no_description else d)"
  by (auto simp: line_entry_def split: option.splits)

lemma scan_partial:
  assumes "take i lines = pre @ [t] @ skipped"
    and "endswith (strip t) ''*/''"
    and "\<forall>l\<in>set skipped. skippable l"
    and "\<forall>l\<in>set pre. \<not> startswith (strip l) ''/**''"
  shows "scan_up (rev (take i lines)) = map strip (pre @ [t])"
proof -
  have "scan_up (rev (take i lines)) = scan_up (rev skipped @ t # rev pre)"
    using assms(1) by simp
  also have "\<dots> = scan_up (t # rev pre)"
    using assms(3) by (intro scan_up_skip) simp
  also have "\<dots> = collect_up (rev pre) [strip t]"
    using assms(2) by (rule scan_up_terminator)
  also have "\<dots> = rev (map strip (rev pre)) @ [strip t]"
    using assms(4) by (intro collect_up_no_opener) simp
  finally show ?thesis by (simp add: rev_map)
qed

text \<open>
  C10 (as amended). When the scan meets a terminator line and no line above it starts
  with the opener, the collected lines are all lines from the first line of the file to
  the terminator, trimmed; the function returns their cleaned, space-joined text; and
  the entry of the function line carries that text unless it is empty, in which case it
  carries the sentinel.
\<close>

theorem partial_comment_used:
  assumes "take i lines = pre @ [t] @ skipped"
    and "endswith (strip t) ''*/''"
    and "\<forall>l\<in>set skipped. skippable l"
    and "\<forall>l\<in>set pre. \<not> startswith (strip l) ''/**''"
  shows "scan_up (rev (take i lines)) = map strip (pre @ [t])
     \<and> extract_jsdoc_comment lines i = Some (clean_up (pre @ [t]))
     \<and> (line_entry file_path lines (i, l) = Some e \<longrightarrow>
          description e = (if clean_up (pre @ [t]) = [] then no_description else clean_up (pre @ [t])))"
proof -
  have s: "scan_up (rev (take i lines)) = map strip (pre @ [t])"
    using assms by (rule scan_partial)
  then have x: "extract_jsdoc_comment lines i = Some (clean_up (pre @ [t]))"
    unfolding extract_jsdoc_comment_def Let_def by (simp only: clean_up_strip) simp
  from s x line_entry_description[OF _ x] show ?thesis by blast
qed

lemma strip_Nil [simp]: "strip [] = []"
  by (simp add: strip_def lstrip_def rstrip_def)

lemma map_filter_append:
  "List.map_filter f (xs @ ys) = List.map_filter f xs @ List.map_filter f ys"
  by (simp add: List.map_filter_def)

lemma clean_line_opener: "startswith (strip l) ''/**'' \<Longrightarrow> clean_line l = None"
  by (simp add: clean_line_def)

lemma clean_line_closer: "startswith (strip l) ''*/'' \<Longrightarrow> clean_line l = None"
  by (simp add: clean_line_def)

lemma clean_line_plain:
  assumes "\<not> startswith (strip l) ''/**''" "\<not> startswith (strip l) ''*/''" "\<not> endswith (strip l) ''*/''"
  shows "clean_line l = (if strip_markers l \<noteq> [] then Some (strip_markers l) else None)"
  using assms by (simp add: clean_line_def strip_markers_def Let_def)

lemma clean_plain_lines:
  assumes "\<forall>l\<in>set xs. \<not> startswith (strip l) ''/**'' \<and> \<not> startswith (strip l) ''*/''
                      \<and> \<not> endswith (strip l) ''*/''"
  shows "List.map_filter clean_line xs = filter (\<lambda>s. s \<noteq> []) (map strip_markers xs)"
  using assms
proof (induction xs)
  case Nil
  then show ?case by (simp add: List.map_filter_simps)
next
  case (Cons x xs)
  then show ?case by (simp add: List.map_filter_simps clean_line_plain)
qed

lemma strip_markers_opener: "strip l = ''/**'' \<Longrightarrow> strip_markers l = []"
  by (simp add: strip_markers_def Let_def startswith_def endswith_def)

lemma strip_markers_closer: "strip l = ''*/'' \<Longrightarrow> strip_markers l = []"
  by (simp add: strip_markers_def Let_def startswith_def endswith_def)

lemma scan_full:
  assumes "take i lines = pre @ [opener] @ interior @ [t] @ skipped"
    and "startswith (strip opener) ''/**''"
    and "endswith (strip t) ''*/''"
    and "\<forall>l\<in>set interior. \<not> startswith (strip l) ''/**''"
    and "\<forall>l\<in>set skipped. skippable l"
  shows "scan_up (rev (take i lines)) = map strip (opener # interior @ [t])"
proof -
  have "scan_up (rev (take i lines)) = scan_up (rev skipped @ t # rev interior @ opener # rev pre)"
    using assms(1) by simp
  also have "\<dots> = scan_up (t # rev interior @ opener # rev pre)"
    using assms(5) by (intro scan_up_skip) simp
  also have "\<dots> = collect_up (rev interior @ opener # rev pre) [strip t]"
    using assms(3) by (rule scan_up_terminator)
  also have "\<dots> = strip opener # rev (map strip (rev interior)) @ [strip t]"
    using assms(4,2) by (intro collect_up_opener) simp_all
  finally show ?thesis by (simp add: rev_map)
qed

text \<open>
  C1 (as amended). A function line is preceded by a block comment in this sense: the
  lines between the comment and the function line are skippable (blank or starting
  with \<^verbatim>\<open>//\<close>, and not ending in \<^verbatim>\<open>*/\<close>); the terminator line is \<^verbatim>\<open>*/\<close> alone;
  the opener line starts with \<^verbatim>\<open>/**\<close>; the lines in between neither start with
  \<^verbatim>\<open>/**\<close> or \<^verbatim>\<open>*/\<close> nor end in \<^verbatim>\<open>*/\<close>. Then the function returns the text of
  the lines in between, as the specification reads it; the opener line is dropped
  whole, so when it holds the marker alone this is the text of the whole comment. The
  entry carries that text unless it is empty, in which case it carries the sentinel.
\<close>

theorem block_comment_description:
  assumes "take i lines = pre @ [opener] @ interior @ [t] @ skipped"
    and "startswith (strip opener) ''/**''"
    and "strip t = ''*/''"
    and "\<forall>l\<in>set interior. \<not> startswith (strip l) ''/**'' \<and> \<not> startswith (strip l) ''*/''
                            \<and> \<not> endswith (strip l) ''*/''"
    and "\<forall>l\<in>set skipped. skippable l"
  shows "extract_jsdoc_comment lines i = Some (spec_description interior)
     \<and> (strip opener = ''/**'' \<longrightarrow>
          spec_description (opener # interior @ [t]) = spec_description interior)
     \<and> (line_entry file_path lines (i, l) = Some e \<longrightarrow>
          description e = (if spec_description interior = [] then no_description
                           else spec_description interior))"
proof -
  have t: "endswith (strip t) ''*/''" "startswith (strip t) ''*/''"
    using assms(3) by (simp_all add: endswith_def startswith_def)
  have "scan_up (rev (take i lines)) = map strip (opener # interior @ [t])"
    using assms(1,2) t(1) _ assms(5) by (rule scan_full) (use assms(4) in blast)
  then have "extract_jsdoc_comment lines i = Some (clean_up (opener # interior @ [t]))"
    unfolding extract_jsdoc_comment_def Let_def by (simp only: clean_up_strip) simp
  moreover have "clean_up (opener # interior @ [t]) = spec_description interior"
    using clean_plain_lines[OF assms(4)] clean_line_opener[OF assms(2)] clean_line_closer[OF t(2)]
    by (simp add: clean_up_def spec_description_def List.map_filter_simps map_filter_append)
  ultimately have x: "extract_jsdoc_comment lines i = Some (spec_description interior)"
    by simp
  have "strip opener = ''/**'' \<longrightarrow>
          spec_description (opener # interior @ [t]) = spec_description interior"
    using strip_markers_closer[OF assms(3)]
    by (auto simp: spec_description_def strip_markers_opener)
  with x line_entry_description[OF _ x] show ?thesis by blast
qed

theorem block_comment_description_witness:
  "take 3 [''/**'', '' * Plays the death sound'', '' */'', ''playDeathSound() {'']
     = [] @ [''/**''] @ ['' * Plays the death sound''] @ ['' */''] @ []
   \<and> startswith (strip ''/**'') ''/**'' \<and> strip '' */'' = ''*/''
   \<and> extract_jsdoc_comment [''/**'', '' * Plays the death sound'', '' */'', ''playDeathSound() {''] 3
        = Some ''Plays the death sound''
   \<and> spec_description [''/**'', '' * Plays the death sound'', '' */''] = ''Plays the death sound''
   \<and> extract_functions ''a.js'' [''/**'', '' * Plays the death sound'', '' */'', ''playDeathSound() {'']
        = [\<lparr>name = ''playDeathSound'', description = ''Plays the death sound'',
            filepath = ''a.js'', line = 4\<rparr>]"
proof -
  have a: "take 3 [''/**'', '' * Plays the death sound'', '' */'', ''playDeathSound() {'']
     = [] @ [''/**''] @ ['' * Plays the death sound''] @ ['' */''] @ []" by simp
  have b: "startswith (strip ''/**'') ''/**''" by code_simp
  have c: "strip '' */'' = ''*/''" by code_simp
  have d: "\<forall>l\<in>set ['' * Plays the death sound'']. \<not> startswith (strip l) ''/**''
          \<and> \<not> startswith (strip l) ''*/'' \<and> \<not> endswith (strip l) ''*/''" by code_simp
  have e: "\<forall>l\<in>set []. skippable l" by simp
  have f: "strip ''/**'' = ''/**''" by code_simp
  have g: "spec_description ['' * Plays the death sound''] = ''Plays the death sound''" by code_simp
  have h: "extract_functions ''a.js'' [''/**'', '' * Plays the death sound'', '' */'', ''playDeathSound() {'']
        = [\<lparr>name = ''playDeathSound'', description = ''Plays the death sound'',
            filepath = ''a.js'', line = 4\<rparr>]" by code_simp
  from block_comment_description[OF a b c d e] f g
  have "extract_jsdoc_comment [''/**'', '' * Plays the death sound'', '' */'', ''playDeathSound() {''] 3
        = Some ''Plays the death sound''"
    and "spec_description [''/**'', '' * Plays the death sound'', '' */''] = ''Plays the death sound''"
    by simp_all
  with a b c h show ?thesis by blast
qed

text \<open>
  C1 as stated fails in four ways, each on a block comment directly above a function
  line. Text that shares the opener line is dropped with the line, and the entry gets
  the sentinel. Text before the close marker on the terminator line keeps the marker.
  A comment on one line is taken for a terminator only, so the scan goes on upward and
  collects the function above it. A single-line comment that ends in the close marker,
  below the block comment, is taken for the terminator and joins the description.
\<close>

theorem block_comment_text_counterexample:
  "spec_description [''/** Plays the death sound'', '' */''] = ''Plays the death sound''
   \<and> extract_functions ''a.js'' [''/** Plays the death sound'', '' */'', ''playDeathSound() {'']
        = [\<lparr>name = ''playDeathSound'', description = ''No description available'',
            filepath = ''a.js'', line = 3\<rparr>]
   \<and> spec_description [''/**'', '' * Plays the death sound */''] = ''Plays the death sound''
   \<and> extract_functions ''a.js'' [''/**'', '' * Plays the death sound */'', ''playDeathSound() {'']
        = [\<lparr>name = ''playDeathSound'', description = ''Plays the death sound */'',
            filepath = ''a.js'', line = 3\<rparr>]
   \<and> spec_description [''/** B */''] = ''B''
   \<and> extract_functions ''a.js'' [''/** A */'', ''a() { }'', ''/** B */'', ''b() {'']
        = [\<lparr>name = ''a'', description = ''No description available'',
            filepath = ''a.js'', line = 2\<rparr>,
           \<lparr>name = ''b'', description = ''a() { }'', filepath = ''a.js'', line = 4\<rparr>]
   \<and> spec_description [''/**'', '' * doc'', '' */''] = ''doc''
   \<and> extract_functions ''a.js'' [''/**'', '' * doc'', '' */'', ''// note */'', ''foo() {'']
        = [\<lparr>name = ''foo'', description = ''doc // note */'', filepath = ''a.js'', line = 5\<rparr>]"
  by code_simp

theorem partial_comment_used_witness:
  "take 5 [''var x = 1;'', ''y();'', '' * text */'', '''', ''// c'', ''foo() {'']
     = [''var x = 1;'', ''y();''] @ ['' * text */''] @ ['''', ''// c'']
   \<and> endswith (strip '' * text */'') ''*/''
   \<and> skippable '''' \<and> skippable ''// c''
   \<and> line_entry ''a.js'' [''var x = 1;'', ''y();'', '' * text */'', '''', ''// c'', ''foo() {'']
        (5, ''foo() {'')
      = Some \<lparr>name = ''foo'', description = ''var x = 1; y(); text */'', filepath = ''a.js'', line = 6\<rparr>
   \<and> scan_up (rev (take 5 [''var x = 1;'', ''y();'', '' * text */'', '''', ''// c'', ''foo() {'']))
      = [''var x = 1;'', ''y();'', ''* text */'']
   \<and> clean_up [''var x = 1;'', ''y();'', '' * text */''] = ''var x = 1; y(); text */''"
proof -
  have a: "take 5 [''var x = 1;'', ''y();'', '' * text */'', '''', ''// c'', ''foo() {'']
     = [''var x = 1;'', ''y();''] @ ['' * text */''] @ ['''', ''// c'']" by simp
  have b: "endswith (strip '' * text */'') ''*/''" by code_simp
  have c: "\<forall>l\<in>set ['''', ''// c'']. skippable l" by code_simp
  have d: "\<forall>l\<in>set [''var x = 1;'', ''y();'']. \<not> startswith (strip l) ''/**''" by code_simp
  have e: "line_entry ''a.js'' [''var x = 1;'', ''y();'', '' * text */'', '''', ''// c'', ''foo() {'']
        (5, ''foo() {'')
      = Some \<lparr>name = ''foo'', description = ''var x = 1; y(); text */'', filepath = ''a.js'', line = 6\<rparr>"
    by code_simp
  have f: "map strip ([''var x = 1;'', ''y();''] @ ['' * text */'']) = [''var x = 1;'', ''y();'', ''* text */'']"
    by code_simp
  have g: "clean_up [''var x = 1;'', ''y();'', '' * text */''] = ''var x = 1; y(); text */''" by code_simp
  from partial_comment_used[OF a b c d, of "''a.js''" "''foo() {''"] f
  have "scan_up (rev (take 5 [''var x = 1;'', ''y();'', '' * text */'', '''', ''// c'', ''foo() {'']))
      = [''var x = 1;'', ''y();'', ''* text */'']" by simp
  moreover have "skippable '''' \<and> skippable ''// c''" using c by simp
  ultimately show ?thesis using a b e g by blast
qed

text \<open>
  C10 as stated fails when the cleaned text is empty: the entry then carries the
  sentinel, not the (empty) cleaned text.
\<close>

theorem empty_partial_comment_counterexample:
  "scan_up (rev (take 1 [''*/'', ''foo() {''])) = [''*/'']
   \<and> clean_up [''*/''] = ''''
   \<and> line_entry ''a.js'' [''*/'', ''foo() {''] (1, ''foo() {'')
      = Some \<lparr>name = ''foo'', description = ''No description available'', filepath = ''a.js'', line = 2\<rparr>"
  by code_simp

section \<open>Properties of the duplicate analysis\<close>

lemma dd_append_keys:
  "map fst (dd_append d k v) = (if k \<in> fst ` set d then map fst d else map fst d @ [k])"
  by (induction d k v rule: dd_append.induct) (auto simp: image_iff)

lemma dd_get_append:
  "dd_get (dd_append d k v) n = (if n = k then dd_get d k @ [v] else dd_get d n)"
  by (induction d k v rule: dd_append.induct) (auto simp: dd_get_def)

lemma dd_fold_get:
  "dd_get (foldl (\<lambda>d (k, v). dd_append d k v) d kvs) n
     = dd_get d n @ map snd (filter (\<lambda>(k, v). k = n) kvs)"
  by (induction kvs arbitrary: d) (auto simp: dd_get_append)

lemma dd_fold_keys:
  "map fst (foldl (\<lambda>d (k, v). dd_append d k v) d kvs)
     = map fst d @ filter (\<lambda>k. k \<notin> fst ` set d) (first_seen (map fst kvs))"
proof (induction kvs arbitrary: d)
  case Nil
  then show ?case by simp
next
  case (Cons kv kvs)
  obtain k v where kv: "kv = (k, v)" by (cases kv)
  show ?case
  proof (cases "k \<in> fst ` set d")
    case True
    then have "fst ` set (dd_append d k v) = fst ` set d"
      using dd_append_keys[of d k v] by (metis list.set_map)
    moreover have "filter (\<lambda>x. x \<notin> fst ` set d) (filter (\<lambda>y. y \<noteq> k) (first_seen (map fst kvs)))
        = filter (\<lambda>x. x \<notin> fst ` set d) (first_seen (map fst kvs))"
      using True by (auto intro: filter_cong)
    ultimately show ?thesis using True kv Cons.IH[of "dd_append d k v"]
      by (simp add: dd_append_keys)
  next
    case False
    then have "fst ` set (dd_append d k v) = insert k (fst ` set d)"
      using dd_append_keys[of d k v] by (metis list.set_map set_append list.simps(15) Un_insert_right sup_bot.right_neutral set_simps(1) empty_set)
    moreover have "filter (\<lambda>x. x \<notin> insert k (fst ` set d)) (first_seen (map fst kvs))
        = filter (\<lambda>x. x \<notin> fst ` set d) (filter (\<lambda>y. y \<noteq> k) (first_seen (map fst kvs)))"
      by (auto intro: filter_cong)
    ultimately show ?thesis using False kv Cons.IH[of "dd_append d k v"]
      by (simp add: dd_append_keys)
  qed
qed

lemma first_seen_set: "set (first_seen xs) = set xs"
  by (induction xs) auto

lemma first_seen_distinct: "distinct (first_seen xs)"
  by (induction xs) (auto simp: first_seen_set)

lemma methods_by_name_fold:
  "methods_by_name c = foldl (\<lambda>d (k, v). dd_append d k v) [] (all_methods c)"
proof -
  have inner: "\<And>d fp ms. foldl (\<lambda>d method. dd_append d (name method)
                 \<lparr>occ_file = fp, occ_description = description method,
                  occ_line = line method\<rparr>) d ms
      = foldl (\<lambda>d (k, v). dd_append d k v) d (map (\<lambda>method. (name method,
               \<lparr>occ_file = fp, occ_description = description method,
                occ_line = line method\<rparr>)) ms)"
    subgoal for d fp ms by (induction ms arbitrary: d) auto
    done
  have "\<And>d. foldl (\<lambda>d (file_path, methods).
        foldl (\<lambda>d method. dd_append d (name method)
                 \<lparr>occ_file = file_path, occ_description = description method,
                  occ_line = line method\<rparr>) d methods) d c
     = foldl (\<lambda>d (k, v). dd_append d k v) d (all_methods c)"
    subgoal for d
      by (induction c arbitrary: d) (auto simp: all_methods_def inner)
    done
  then show ?thesis by (simp add: methods_by_name_def)
qed

lemma methods_by_name_keys: "map fst (methods_by_name c) = first_seen (map fst (all_methods c))"
  by (simp add: methods_by_name_fold dd_fold_keys)

lemma methods_by_name_get: "dd_get (methods_by_name c) n = occurrences_of c n"
  using dd_fold_get[of "[]" "all_methods c" n]
  by (simp add: methods_by_name_fold occurrences_of_def) (simp add: dd_get_def)

lemma methods_by_name_value:
  assumes "(n, occs) \<in> set (methods_by_name c)"
  shows "occs = occurrences_of c n"
proof -
  have "distinct (map fst (methods_by_name c))"
    by (simp add: methods_by_name_keys first_seen_distinct)
  with assms have "map_of (methods_by_name c) n = Some occs" by simp
  then show ?thesis using methods_by_name_get[of c n] by (simp add: dd_get_def)
qed

lemma occurrences_length: "length (occurrences_of c n) = occurrence_count c n"
proof -
  have "\<And>kvs :: (string \<times> occurrence) list.
      length (filter (\<lambda>(k, v). k = n) kvs) = count_list (map fst kvs) n"
    subgoal for kvs by (induction kvs) auto
    done
  then show ?thesis by (simp add: occurrences_of_def occurrence_count_def)
qed

lemma analyze_duplicates_filter:
  "analyze_duplicates c
     = filter (\<lambda>(n, occs). 1 < occurrence_count c n) (methods_by_name c)"
  unfolding analyze_duplicates_def
  by (rule filter_cong) (auto dest!: methods_by_name_value simp: occurrences_length)

lemma analyze_duplicates_keys:
  "map fst (analyze_duplicates c)
     = filter (\<lambda>n. 1 < occurrence_count c n) (first_seen (map fst (all_methods c)))"
proof -
  have "\<And>xs :: (string \<times> occurrence list) list.
      map fst (filter (\<lambda>(n, occs). 1 < occurrence_count c n) xs)
        = filter (\<lambda>n. 1 < occurrence_count c n) (map fst xs)"
    subgoal for xs by (induction xs) auto
    done
  then show ?thesis by (simp add: analyze_duplicates_filter methods_by_name_keys)
qed

lemma counted_is_seen: "0 < count_list xs n \<Longrightarrow> n \<in> set xs"
  by (induction xs) (auto split: if_splits)

text \<open>
  C2. The names of the duplicate groups are distinct; they are exactly the names that
  occur more than once in the catalog; each group holds the occurrences of its name in
  discovery order, as many as the name occurs; and the groups come in the order in which
  their names were first discovered. The result is a function of the catalog.
\<close>

theorem duplicates_exact:
  "distinct (map fst (analyze_duplicates c))
   \<and> set (map fst (analyze_duplicates c)) = {n. 1 < occurrence_count c n}
   \<and> (\<forall>(n, occs) \<in> set (analyze_duplicates c).
         occs = occurrences_of c n \<and> length occs = occurrence_count c n)
   \<and> map fst (analyze_duplicates c)
       = filter (\<lambda>n. 1 < occurrence_count c n) (first_seen (map fst (all_methods c)))"
proof (intro conjI)
  show "distinct (map fst (analyze_duplicates c))"
    by (simp add: analyze_duplicates_keys first_seen_distinct)
  show "set (map fst (analyze_duplicates c)) = {n. 1 < occurrence_count c n}"
    unfolding analyze_duplicates_keys
    using counted_is_seen[of "map fst (all_methods c)"]
    by (auto simp: first_seen_set occurrence_count_def)
  show "\<forall>(n, occs) \<in> set (analyze_duplicates c).
         occs = occurrences_of c n \<and> length occs = occurrence_count c n"
    by (auto simp: analyze_duplicates_def occurrences_length dest!: methods_by_name_value)
  show "map fst (analyze_duplicates c)
       = filter (\<lambda>n. 1 < occurrence_count c n) (first_seen (map fst (all_methods c)))"
    by (rule analyze_duplicates_keys)
qed

theorem duplicates_exact_witness:
  "(''update'',
      [\<lparr>occ_file = ''src/a.js'', occ_description = ''Advance the simulation'', occ_line = 3\<rparr>,
       \<lparr>occ_file = ''src/b.js'', occ_description = no_description, occ_line = 5\<rparr>])
     \<in> set (analyze_duplicates catalog_example)
   \<and> [\<lparr>occ_file = ''src/a.js'', occ_description = ''Advance the simulation'', occ_line = 3\<rparr>,
       \<lparr>occ_file = ''src/b.js'', occ_description = no_description, occ_line = 5\<rparr>]
       = occurrences_of catalog_example ''update''
   \<and> occurrence_count catalog_example ''update'' = 2
   \<and> map fst (analyze_duplicates catalog_example) = [''update'']"
proof -
  have a: "(''update'',
      [\<lparr>occ_file = ''src/a.js'', occ_description = ''Advance the simulation'', occ_line = 3\<rparr>,
       \<lparr>occ_file = ''src/b.js'', occ_description = no_description, occ_line = 5\<rparr>])
     \<in> set (analyze_duplicates catalog_example)" by code_simp
  have b: "map fst (analyze_duplicates catalog_example) = [''update'']" by code_simp
  note all = duplicates_exact[of catalog_example, THEN conjunct2, THEN conjunct2, THEN conjunct1]
  have cd: "[\<lparr>occ_file = ''src/a.js'', occ_description = ''Advance the simulation'', occ_line = 3\<rparr>,
       \<lparr>occ_file = ''src/b.js'', occ_description = no_description, occ_line = 5\<rparr>]
       = occurrences_of catalog_example ''update''
     \<and> length [\<lparr>occ_file = ''src/a.js'', occ_description = ''Advance the simulation'', occ_line = 3\<rparr>,
       \<lparr>occ_file = ''src/b.js'', occ_description = no_description, occ_line = 5\<rparr>]
       = occurrence_count catalog_example ''update''"
    using bspec[OF all a] unfolding prod.case .
  have c: "[\<lparr>occ_file = ''src/a.js'', occ_description = ''Advance the simulation'', occ_line = 3\<rparr>,
       \<lparr>occ_file = ''src/b.js'', occ_description = no_description, occ_line = 5\<rparr>]
       = occurrences_of catalog_example ''update''"
    and d: "length [\<lparr>occ_file = ''src/a.js'', occ_description = ''Advance the simulation'', occ_line = 3\<rparr>,
       \<lparr>occ_file = ''src/b.js'', occ_description = no_description, occ_line = 5\<rparr>]
       = occurrence_count catalog_example ''update''"
    using cd by (rule conjunct1, rule conjunct2)
  have e: "occurrence_count catalog_example ''update'' = 2"
    unfolding d[symmetric] by simp
  show ?thesis by (intro conjI) (rule a c e b)+
qed

section \<open>Properties of the similarity analysis\<close>

lemma contains_iff: "contains s p \<longleftrightarrow> (\<exists>before after. s = before @ p @ after)"
proof (induction s)
  case Nil
  then show ?case by auto
next
  case (Cons c cs)
  have "startswith (c # cs) p \<longleftrightarrow> (\<exists>after. c # cs = p @ after)"
    unfolding startswith_def by (metis append_eq_conv_conj)
  moreover have "(\<exists>before after. c # cs = before @ p @ after)
      \<longleftrightarrow> (\<exists>after. c # cs = p @ after) \<or> (\<exists>before after. cs = before @ p @ after)"
    by (auto simp: Cons_eq_append_conv)
  ultimately show ?case using Cons.IH by simp
qed

lemma letter_table:
  "\<forall>c \<in> set (Enum.enum :: char list).
     map_of letter_cases c = (if lower_char c = c then None else Some (lower_char c))"
  by code_simp

lemma letter_cases_distinct: "distinct (map fst letter_cases)"
  by code_simp

lemma letter_cases_lower: "(a, b) \<in> set letter_cases \<longleftrightarrow> lower_char a \<noteq> a \<and> b = lower_char a"
proof -
  have "a \<in> set (Enum.enum :: char list)" by (simp add: enum_UNIV)
  with letter_table
  have "map_of letter_cases a = (if lower_char a = a then None else Some (lower_char a))"
    by (rule bspec)
  moreover have "(a, b) \<in> set letter_cases \<longleftrightarrow> map_of letter_cases a = Some b"
    using letter_cases_distinct by simp
  ultimately show ?thesis by auto
qed

lemma char_of_nat_eq:
  "j < 256 \<Longrightarrow> k < 256 \<Longrightarrow> (char_of (j::nat) = (char_of (k::nat) :: char)) \<longleftrightarrow> j = k"
  by (simp add: char_of_eq_iff take_bit_nat_eq_self)

lemma lower_char_code:
  "lower_char a = char_of (if (65 \<le> (of_char a :: nat) \<and> (of_char a :: nat) \<le> 90)
                              \<or> (192 \<le> (of_char a :: nat) \<and> (of_char a :: nat) \<le> 222
                                   \<and> (of_char a :: nat) \<noteq> 215)
                           then (of_char a :: nat) + 32 else of_char a)"
  by (simp add: lower_char_def Let_def)

lemma lower_char_same: "lower_char a = lower_char b \<longleftrightarrow> same_letter a b"
proof -
  define n m where "n = (of_char a :: nat)" and "m = (of_char b :: nat)"
  define n' m' where "n' = (if (65 \<le> n \<and> n \<le> 90) \<or> (192 \<le> n \<and> n \<le> 222 \<and> n \<noteq> 215) then n + 32 else n)"
    and "m' = (if (65 \<le> m \<and> m \<le> 90) \<or> (192 \<le> m \<and> m \<le> 222 \<and> m \<noteq> 215) then m + 32 else m)"
  have a: "a = char_of n" and b: "b = char_of m" by (simp_all add: n_def m_def)
  have lt: "n < 256" "m < 256" by (simp_all add: n_def m_def)
  have lt': "n' < 256" "m' < 256" using lt by (auto simp: n'_def m'_def)
  have la: "lower_char a = char_of n'" and lb: "lower_char b = char_of m'"
    unfolding lower_char_code n'_def m'_def n_def m_def by (rule refl)+
  have ll: "lower_char a = lower_char b \<longleftrightarrow> n' = m'"
    unfolding la lb using lt' by (rule char_of_nat_eq)
  have ab: "a = b \<longleftrightarrow> n = m" unfolding a b using lt by (rule char_of_nat_eq)
  have na: "lower_char a \<noteq> a \<longleftrightarrow> n' \<noteq> n"
    unfolding la unfolding a using lt' lt by (simp add: char_of_nat_eq)
  have nb: "lower_char b \<noteq> b \<longleftrightarrow> m' \<noteq> m"
    unfolding lb unfolding b using lt' lt by (simp add: char_of_nat_eq)
  have ba: "b = lower_char a \<longleftrightarrow> m = n'"
    unfolding la unfolding b using lt' lt by (simp add: char_of_nat_eq)
  have ab': "a = lower_char b \<longleftrightarrow> n = m'"
    unfolding lb unfolding a using lt' lt by (simp add: char_of_nat_eq)
  have sl: "same_letter a b \<longleftrightarrow> n = m \<or> (n' \<noteq> n \<and> m = n') \<or> (m' \<noteq> m \<and> n = m')"
    unfolding same_letter_def letter_cases_lower ab na nb ba ab' by (rule refl)
  show ?thesis unfolding ll sl unfolding n'_def m'_def using lt by (auto split: if_splits)
qed

lemma lower_ci_equal: "lower s = lower t \<longleftrightarrow> ci_equal s t"
proof -
  have "lower s = lower t \<longleftrightarrow> list_all2 (=) (map lower_char s) (map lower_char t)"
    by (simp add: lower_def list.rel_eq)
  also have "\<dots> \<longleftrightarrow> list_all2 (\<lambda>a b. lower_char a = lower_char b) s t"
    by (simp only: list_all2_map1 list_all2_map2)
  finally show ?thesis by (simp add: ci_equal_def lower_char_same)
qed

lemma contains_lower: "contains (lower text) (lower keyword) \<longleftrightarrow> ci_substring keyword text"
proof -
  have "contains (lower text) (lower keyword)
      \<longleftrightarrow> (\<exists>before piece after. text = before @ piece @ after \<and> lower piece = lower keyword)"
    unfolding contains_iff lower_def
    by (auto simp: map_eq_append_conv append_eq_map_conv) metis+
  then show ?thesis by (simp add: ci_substring_def lower_ci_equal)
qed

lemma keyword_hit_iff: "keyword_hit keywords e \<longleftrightarrow> in_category keywords e"
  by (simp add: keyword_hit_def in_category_def list_ex_iff contains_lower)

lemma filter_keyword_hit: "filter (in_category keywords) xs = filter (keyword_hit keywords) xs"
  by (rule filter_cong) (simp_all add: keyword_hit_iff)

lemma letter_examples:
  "same_letter CHR ''A'' CHR ''a''" "same_letter CHR ''e'' CHR ''E''"
  "\<not> same_letter CHR ''a'' CHR ''b''" "\<not> same_letter CHR ''@'' CHR 0x60"
  "ci_equal ''AUDIO'' ''audio''" "\<not> ci_equal ''Audit'' ''audio''"
  by code_simp+

lemma classify_fold_get:
  "distinct (map fst ps) \<Longrightarrow>
   dd_get (foldl (\<lambda>groups (category, keywords).
                  if P keywords then dd_append groups category info else groups) g ps) k
     = dd_get g k @ (if \<exists>keywords. (k, keywords) \<in> set ps \<and> P keywords then [info] else [])"
proof (induction ps arbitrary: g)
  case Nil
  then show ?case by simp
next
  case (Cons p ps)
  obtain ct kws where p: "p = (ct, kws)" by (cases p)
  from Cons.prems p have notin: "\<And>kws. (ct, kws) \<notin> set ps" and d: "distinct (map fst ps)"
    by (auto simp: image_iff)
  show ?case
    using Cons.IH[OF d] notin by (auto simp: p dd_get_append)
qed

lemma category_patterns_distinct: "distinct (map fst category_patterns)"
  by (simp add: category_patterns_def)

lemma classify_get:
  "dd_get (classify g fp m) k
     = dd_get g k @ (if \<exists>keywords. (k, keywords) \<in> set category_patterns \<and> keyword_hit keywords m
                     then [\<lparr>name = name m, description = description m, filepath = fp, line = line m\<rparr>]
                     else [])"
  unfolding classify_def Let_def
  by (rule classify_fold_get[OF category_patterns_distinct])

lemma keyword_hit_info:
  "keyword_hit keywords \<lparr>name = name m, description = description m, filepath = fp, line = line m\<rparr>
     = keyword_hit keywords m"
  by (simp add: keyword_hit_def)

lemma classify_methods_get:
  "dd_get (foldl (\<lambda>groups method. classify groups fp method) g ms) k
     = dd_get g k @ filter (\<lambda>info. \<exists>keywords. (k, keywords) \<in> set category_patterns
                                       \<and> keyword_hit keywords info)
         (map (\<lambda>method. \<lparr>name = name method, description = description method,
                           filepath = fp, line = line method\<rparr>) ms)"
  by (induction ms arbitrary: g) (simp_all add: classify_get keyword_hit_info)

lemma analyze_fold_get:
  "dd_get (foldl (\<lambda>groups (file_path, methods).
        foldl (\<lambda>groups method. classify groups file_path method) groups methods) g c) k
     = dd_get g k @ filter (\<lambda>info. \<exists>keywords. (k, keywords) \<in> set category_patterns
                                       \<and> keyword_hit keywords info) (all_infos c)"
proof (induction c arbitrary: g)
  case Nil
  then show ?case by (simp add: all_infos_def)
next
  case (Cons fm c)
  obtain fp ms where "fm = (fp, ms)" by (cases fm)
  then show ?case using Cons.IH by (simp add: classify_methods_get all_infos_def)
qed

lemma group_of_category:
  assumes "(category, keywords) \<in> set category_patterns"
  shows "dd_get (analyze_similar_functionality c) category = filter (in_category keywords) (all_infos c)"
proof -
  have "\<And>kws. (category, kws) \<in> set category_patterns \<longleftrightarrow> kws = keywords"
    using assms category_patterns_distinct by (metis eq_key_imp_eq_value)
  then have "(\<lambda>info. \<exists>kws. (category, kws) \<in> set category_patterns \<and> keyword_hit kws info)
      = in_category keywords"
    by (auto simp: keyword_hit_iff fun_eq_iff)
  then show ?thesis
    unfolding analyze_similar_functionality_def analyze_fold_get by (simp add: dd_get_def)
qed

lemma init_audio_effect_hits:
  assumes "name e = ''initAudioEffect''"
  shows "in_category [''initialize'', ''init'', ''setup'', ''create''] e"
    and "in_category [''play'', ''sound'', ''audio'', ''music''] e"
    and "in_category [''effect'', ''particle'', ''visual'', ''animation''] e"
proof -
  have "contains (lower ''initAudioEffect'') (lower ''init'')"
    "contains (lower ''initAudioEffect'') (lower ''audio'')"
    "contains (lower ''initAudioEffect'') (lower ''effect'')"
    by code_simp+
  then have "ci_substring ''init'' (name e)" "ci_substring ''audio'' (name e)"
    "ci_substring ''effect'' (name e)"
    using assms by (simp_all add: contains_lower)
  then show "in_category [''initialize'', ''init'', ''setup'', ''create''] e"
    and "in_category [''play'', ''sound'', ''audio'', ''music''] e"
    and "in_category [''effect'', ''particle'', ''visual'', ''animation''] e"
    by (simp_all add: in_category_def)
qed

text \<open>
  C3. There are 8 categories. The group of each category holds, in discovery order,
  exactly the entries of the catalog for which some keyword of the category is a
  case-insensitive substring of the name or of the description; a category is not
  exclusive of another. In particular an entry named \<^verbatim>\<open>initAudioEffect\<close> is in the
  groups \<^verbatim>\<open>initialization\<close>, \<^verbatim>\<open>audio\<close> and \<^verbatim>\<open>effects\<close> at once, whatever its
  description.
\<close>

theorem similarity_groups:
  "length category_patterns = 8
   \<and> (\<forall>(category, keywords) \<in> set category_patterns.
        dd_get (analyze_similar_functionality c) category
          = filter (in_category keywords) (all_infos c)
        \<and> (\<forall>info. info \<in> set (dd_get (analyze_similar_functionality c) category)
              \<longleftrightarrow> info \<in> set (all_infos c) \<and> in_category keywords info))
   \<and> (\<forall>info \<in> set (all_infos c). name info = ''initAudioEffect'' \<longrightarrow>
          info \<in> set (dd_get (analyze_similar_functionality c) ''initialization'')
        \<and> info \<in> set (dd_get (analyze_similar_functionality c) ''audio'')
        \<and> info \<in> set (dd_get (analyze_similar_functionality c) ''effects''))"
proof (intro conjI ballI impI)
  show "length category_patterns = 8" by (simp add: category_patterns_def)
next
  fix p assume p: "p \<in> set category_patterns"
  obtain ct kws where "p = (ct, kws)" by (cases p)
  with p show "case p of (category, keywords) \<Rightarrow>
        dd_get (analyze_similar_functionality c) category
          = filter (in_category keywords) (all_infos c)
        \<and> (\<forall>info. info \<in> set (dd_get (analyze_similar_functionality c) category)
              \<longleftrightarrow> info \<in> set (all_infos c) \<and> in_category keywords info)"
    by (simp add: group_of_category)
next
  fix info assume i: "info \<in> set (all_infos c)" and n: "name info = ''initAudioEffect''"
  have "(''initialization'', [''initialize'', ''init'', ''setup'', ''create'']) \<in> set category_patterns"
    by (simp add: category_patterns_def)
  from group_of_category[OF this] init_audio_effect_hits(1)[OF n] i
  show "info \<in> set (dd_get (analyze_similar_functionality c) ''initialization'')" by simp
  have "(''audio'', [''play'', ''sound'', ''audio'', ''music'']) \<in> set category_patterns"
    by (simp add: category_patterns_def)
  from group_of_category[OF this] init_audio_effect_hits(2)[OF n] i
  show "info \<in> set (dd_get (analyze_similar_functionality c) ''audio'')" by simp
  have "(''effects'', [''effect'', ''particle'', ''visual'', ''animation'']) \<in> set category_patterns"
    by (simp add: category_patterns_def)
  from group_of_category[OF this] init_audio_effect_hits(3)[OF n] i
  show "info \<in> set (dd_get (analyze_similar_functionality c) ''effects'')" by simp
qed

theorem similarity_groups_witness:
  "(''audio'', [''play'', ''sound'', ''audio'', ''music'']) \<in> set category_patterns
   \<and> (''update'', [''update'', ''tick'', ''refresh'']) \<in> set category_patterns
   \<and> dd_get (analyze_similar_functionality catalog_example) ''audio''
       = [\<lparr>name = ''initAudioEffect'', description = ''Emits a particle burst'',
           filepath = ''src/a.js'', line = 9\<rparr>]
   \<and> dd_get (analyze_similar_functionality catalog_example) ''update''
       = [\<lparr>name = ''update'', description = ''Advance the simulation'',
           filepath = ''src/a.js'', line = 3\<rparr>,
          \<lparr>name = ''update'', description = ''No description available'',
           filepath = ''src/b.js'', line = 5\<rparr>]
   \<and> \<lparr>name = ''initAudioEffect'', description = ''Emits a particle burst'',
        filepath = ''src/a.js'', line = 9\<rparr> \<in> set (all_infos catalog_example)
   \<and> (\<lparr>name = ''initAudioEffect'', description = ''Emits a particle burst'',
        filepath = ''src/a.js'', line = 9\<rparr>
          \<in> set (dd_get (analyze_similar_functionality catalog_example) ''initialization'')
      \<and> \<lparr>name = ''initAudioEffect'', description = ''Emits a particle burst'',
        filepath = ''src/a.js'', line = 9\<rparr>
          \<in> set (dd_get (analyze_similar_functionality catalog_example) ''audio'')
      \<and> \<lparr>name = ''initAudioEffect'', description = ''Emits a particle burst'',
        filepath = ''src/a.js'', line = 9\<rparr>
          \<in> set (dd_get (analyze_similar_functionality catalog_example) ''effects''))"
proof -
  note sg = similarity_groups[of catalog_example]
  have a: "(''audio'', [''play'', ''sound'', ''audio'', ''music'']) \<in> set category_patterns"
    by code_simp
  have a': "(''update'', [''update'', ''tick'', ''refresh'']) \<in> set category_patterns"
    by code_simp
  have f: "filter (keyword_hit [''play'', ''sound'', ''audio'', ''music'']) (all_infos catalog_example)
       = [\<lparr>name = ''initAudioEffect'', description = ''Emits a particle burst'',
           filepath = ''src/a.js'', line = 9\<rparr>]"
    by code_simp
  have f': "filter (keyword_hit [''update'', ''tick'', ''refresh'']) (all_infos catalog_example)
       = [\<lparr>name = ''update'', description = ''Advance the simulation'',
           filepath = ''src/a.js'', line = 3\<rparr>,
          \<lparr>name = ''update'', description = ''No description available'',
           filepath = ''src/b.js'', line = 5\<rparr>]"
    by code_simp
  have b: "dd_get (analyze_similar_functionality catalog_example) ''audio''
       = [\<lparr>name = ''initAudioEffect'', description = ''Emits a particle burst'',
           filepath = ''src/a.js'', line = 9\<rparr>]"
    using bspec[OF sg[THEN conjunct2, THEN conjunct1] a] unfolding prod.case filter_keyword_hit f
    by (rule conjunct1)
  have b': "dd_get (analyze_similar_functionality catalog_example) ''update''
       = [\<lparr>name = ''update'', description = ''Advance the simulation'',
           filepath = ''src/a.js'', line = 3\<rparr>,
          \<lparr>name = ''update'', description = ''No description available'',
           filepath = ''src/b.js'', line = 5\<rparr>]"
    using bspec[OF sg[THEN conjunct2, THEN conjunct1] a'] unfolding prod.case filter_keyword_hit f'
    by (rule conjunct1)
  have c: "\<lparr>name = ''initAudioEffect'', description = ''Emits a particle burst'',
        filepath = ''src/a.js'', line = 9\<rparr> \<in> set (all_infos catalog_example)"
    by code_simp
  have n: "name \<lparr>name = ''initAudioEffect'', description = ''Emits a particle burst'',
        filepath = ''src/a.js'', line = 9\<rparr> = ''initAudioEffect''"
    by simp
  note d = bspec[OF sg[THEN conjunct2, THEN conjunct2] c, THEN mp, OF n]
  show ?thesis by (intro conjI) (rule a a' b b' c d[THEN conjunct1] d[THEN conjunct2, THEN conjunct1]
      d[THEN conjunct2, THEN conjunct2])+
qed

section \<open>Properties of the entry points\<close>

lemma process_files_append:
  "process_files fs (xs @ ys) st = process_files fs ys (process_files fs xs st)"
proof (induction xs arbitrary: st)
  case Nil
  then show ?case by simp
next
  case (Cons x xs)
  obtain ct out where "st = (ct, out)" by (cases st)
  then show ?case using Cons.IH by (simp add: Let_def split: prod.splits)
qed

lemma process_files_catalog:
  "fst (process_files fs ys (ct, out)) = fst (process_files fs ys (ct, out'))"
proof (induction ys arbitrary: ct out out')
  case Nil
  then show ?case by simp
next
  case (Cons y ys)
  then show ?case by (simp add: Let_def split: prod.splits)
qed

lemma process_files_output:
  "\<exists>more. snd (process_files fs ys (ct, out)) = out @ more"
proof (induction ys arbitrary: ct out)
  case Nil
  then show ?case by simp
next
  case (Cons y ys)
  obtain fns msgs where e: "extract_functions_from_file fs y = (fns, msgs)"
    by (cases "extract_functions_from_file fs y")
  from Cons.IH[of "if fns \<noteq> [] then dict_set ct (fs_relpath fs y) fns else ct"
      "out @ [''Processing: '' @ y] @ msgs"]
  show ?case using e by (auto simp: Let_def)
qed

lemma unreadable_file:
  "fs_read fs f = Inl e \<Longrightarrow>
   extract_functions_from_file fs f = ([], [''Error reading '' @ f @ '': '' @ e])"
  by (simp add: extract_functions_from_file_def)

lemma unreadable_step:
  "fs_read fs f = Inl e \<Longrightarrow>
   process_files fs [f] (ct, out)
     = (ct, out @ [''Processing: '' @ f, ''Error reading '' @ f @ '': '' @ e])"
  by (simp add: unreadable_file)

text \<open>
  C8. Generation: a file whose reading raises contributes no entries and one printed
  warning; the catalog built from a list of files is the catalog built from the list
  without that file, so the scan of the other files is unchanged, and the warning is in
  the output. Analysis: when the persisted document is missing or \<^verbatim>\<open>json.load\<close> raises
  on it, \<^verbatim>\<open>load_catalog\<close> raises that exception, and \<^verbatim>\<open>main\<close> ends with it before any
  report is printed.
\<close>

theorem failures_contained_or_fatal:
  "(fs_read fs f = Inl e \<longrightarrow>
      extract_functions_from_file fs f = ([], [''Error reading '' @ f @ '': '' @ e])
    \<and> fst (process_files fs (xs @ f # ys) st) = fst (process_files fs (xs @ ys) st)
    \<and> ''Error reading '' @ f @ '': '' @ e \<in> set (snd (process_files fs (xs @ f # ys) st)))
   \<and> (files ''method_catalog.json'' = None \<longrightarrow>
        load_catalog json_load files = Inl (FileNotFoundError ''method_catalog.json''))
   \<and> (files ''method_catalog.json'' = Some content \<and> json_load content = Inl err \<longrightarrow>
        load_catalog json_load files = Inl err)
   \<and> (load_catalog json_load files = Inl err \<longrightarrow> main json_load reports files = ([], Some err))"
proof (intro conjI impI)
  assume r: "fs_read fs f = Inl e"
  show "extract_functions_from_file fs f = ([], [''Error reading '' @ f @ '': '' @ e])"
    using r by (rule unreadable_file)
  obtain ct out where st: "process_files fs xs st = (ct, out)"
    by (cases "process_files fs xs st")
  have step: "process_files fs (xs @ f # ys) st
      = process_files fs ys (ct, out @ [''Processing: '' @ f, ''Error reading '' @ f @ '': '' @ e])"
    using process_files_append[of fs xs "[f] @ ys" st] process_files_append[of fs "[f]" ys "(ct, out)"]
      unreadable_step[OF r, of ct out] st by simp
  have "process_files fs (xs @ ys) st = process_files fs ys (ct, out)"
    using process_files_append[of fs xs ys st] st by simp
  with step show "fst (process_files fs (xs @ f # ys) st) = fst (process_files fs (xs @ ys) st)"
    using process_files_catalog by simp
  from process_files_output[of fs ys ct "out @ [''Processing: '' @ f, ''Error reading '' @ f @ '': '' @ e]"]
  show "''Error reading '' @ f @ '': '' @ e \<in> set (snd (process_files fs (xs @ f # ys) st))"
    unfolding step by auto
next
  assume "files ''method_catalog.json'' = None"
  then show "load_catalog json_load files = Inl (FileNotFoundError ''method_catalog.json'')"
    by (simp add: load_catalog_def)
next
  assume "files ''method_catalog.json'' = Some content \<and> json_load content = Inl err"
  then show "load_catalog json_load files = Inl err"
    by (simp add: load_catalog_def)
next
  assume "load_catalog json_load files = Inl err"
  then show "main json_load reports files = ([], Some err)"
    by (simp add: main_def)
qed

text \<open>
  C9. The summary divides by the total entry count without a guard: when the catalog
  has no entry (the empty catalog in particular) the run ends with a division error
  after the three count lines and no rate line is printed; when it has at least one
  entry nothing is raised and the last line printed is the rate.
\<close>

theorem summary_needs_an_entry:
  "total_methods [] = 0
   \<and> (total_methods c = 0 \<longrightarrow>
        summary c = ([CHR 0x0A # ''=== SUMMARY ==='',
                      ''Total files: '' @ str_int (int (length c)),
                      ''Total methods: 0'',
                      ''Duplicate method names: '' @ str_int (int (length (analyze_duplicates c)))],
                     Some ZeroDivisionError)
        \<and> (load_catalog json_load files = Inr c \<longrightarrow>
             snd (main json_load reports files) = Some ZeroDivisionError))
   \<and> (0 < total_methods c \<longrightarrow>
        snd (summary c) = None
        \<and> (\<exists>rate. last (fst (summary c)) = ''Duplication rate: '' @ rate @ ''%''))"
proof -
  have z: "str_int 0 = ''0''" by (simp add: str_int_def str_nat.simps)
  show ?thesis
    by (auto simp: summary_def true_divide_def main_def Let_def z)
      (simp add: total_methods_def)
qed

theorem failures_contained_or_fatal_witness:
  "fs_read fs_example ''src/b.js'' = Inl ''denied''
   \<and> extract_functions_from_file fs_example ''src/b.js'' = ([], [''Error reading src/b.js: denied''])
   \<and> fst (process_files fs_example ([''src/a.js''] @ ''src/b.js'' # [''src/c.js'']) ([], []))
       = fst (process_files fs_example ([''src/a.js''] @ [''src/c.js'']) ([], []))
   \<and> ''Error reading src/b.js: denied''
       \<in> set (snd (process_files fs_example ([''src/a.js''] @ ''src/b.js'' # [''src/c.js'']) ([], [])))
   \<and> load_catalog (\<lambda>s. Inl (JSONDecodeError s)) Map.empty
       = Inl (FileNotFoundError ''method_catalog.json'')
   \<and> load_catalog (\<lambda>s. Inl (JSONDecodeError s)) [''method_catalog.json'' \<mapsto> ''{'']
       = Inl (JSONDecodeError ''{'')
   \<and> main (\<lambda>s. Inl (JSONDecodeError s)) (\<lambda>c. []) [''method_catalog.json'' \<mapsto> ''{'']
       = ([], Some (JSONDecodeError ''{''))"
proof -
  note t1 = failures_contained_or_fatal[where fs = fs_example and f = "''src/b.js''"
      and e = "''denied''" and xs = "[''src/a.js'']" and ys = "[''src/c.js'']" and st = "([], [])"
      and files = Map.empty and json_load = "\<lambda>s. Inl (JSONDecodeError s)"
      and content = "''{''" and err = "JSONDecodeError ''{''" and reports = "\<lambda>c. []"]
  note t2 = failures_contained_or_fatal[where fs = fs_example and f = "''src/b.js''"
      and e = "''denied''" and xs = "[''src/a.js'']" and ys = "[''src/c.js'']" and st = "([], [])"
      and files = "[''method_catalog.json'' \<mapsto> ''{'']" and json_load = "\<lambda>s. Inl (JSONDecodeError s)"
      and content = "''{''" and err = "JSONDecodeError ''{''" and reports = "\<lambda>c. []"]
  have r: "fs_read fs_example ''src/b.js'' = Inl ''denied''" by (simp add: fs_example_def)
  note g = t1[THEN conjunct1, THEN mp, OF r]
  have m: "Map.empty ''method_catalog.json'' = (None :: string option)" by simp
  note l1 = t1[THEN conjunct2, THEN conjunct1, THEN mp, OF m]
  have j: "[''method_catalog.json'' \<mapsto> ''{''] ''method_catalog.json'' = Some ''{''
      \<and> (\<lambda>s. Inl (JSONDecodeError s) :: py_error + catalog) ''{'' = Inl (JSONDecodeError ''{'')" by simp
  note l2 = t2[THEN conjunct2, THEN conjunct2, THEN conjunct1, THEN mp, OF j]
  note l3 = t2[THEN conjunct2, THEN conjunct2, THEN conjunct2, THEN mp, OF l2]
  have s: "''Error reading '' @ ''src/b.js'' @ '': '' @ ''denied'' = ''Error reading src/b.js: denied''"
    by simp
  note g1 = g[THEN conjunct1, unfolded s]
  note g2 = g[THEN conjunct2, THEN conjunct1]
  note g3 = g[THEN conjunct2, THEN conjunct2, unfolded s]
  show ?thesis by (intro conjI) (rule r g1 g2 g3 l1 l2 l3)+
qed

theorem summary_needs_an_entry_witness:
  "total_methods [] = 0
   \<and> summary [] = ([CHR 0x0A # ''=== SUMMARY ==='', ''Total files: 0'', ''Total methods: 0'',
                    ''Duplicate method names: 0''], Some ZeroDivisionError)
   \<and> load_catalog (\<lambda>s. Inr []) [''method_catalog.json'' \<mapsto> ''{}''] = Inr []
   \<and> snd (main (\<lambda>s. Inr []) (\<lambda>c. []) [''method_catalog.json'' \<mapsto> ''{}'']) = Some ZeroDivisionError
   \<and> 0 < total_methods catalog_example
   \<and> snd (summary catalog_example) = None"
proof -
  note t1 = summary_needs_an_entry[where c = "[]" and json_load = "\<lambda>s. Inr []"
      and files = "[''method_catalog.json'' \<mapsto> ''{}'']" and reports = "\<lambda>c. []"]
  note t2 = summary_needs_an_entry[where c = catalog_example and json_load = "\<lambda>s. Inr []"
      and files = "[''method_catalog.json'' \<mapsto> ''{}'']" and reports = "\<lambda>c. []"]
  note z = t1[THEN conjunct1]
  note a = t1[THEN conjunct2, THEN conjunct1, THEN mp, OF z]
  have l: "load_catalog (\<lambda>s. Inr []) [''method_catalog.json'' \<mapsto> ''{}''] = Inr []"
    by (simp add: load_catalog_def)
  note m = a[THEN conjunct2, THEN mp, OF l]
  have s0: "summary [] = ([CHR 0x0A # ''=== SUMMARY ==='', ''Total files: 0'', ''Total methods: 0'',
                    ''Duplicate method names: 0''], Some ZeroDivisionError)"
    using a[THEN conjunct1]
    by (simp add: analyze_duplicates_def methods_by_name_def str_int_def str_nat.simps)
  have p: "0 < total_methods catalog_example" by (simp add: total_methods_def catalog_example_def)
  note n = t2[THEN conjunct2, THEN conjunct2, THEN mp, OF p, THEN conjunct1]
  show ?thesis by (intro conjI) (rule z s0 l m p n)+
qed

section \<open>Properties of the float model\<close>

lemma pow2_powi: "pow2 k = 2 powi k"
  by (simp add: pow2_def power_int_def power_one_over inverse_eq_divide)

lemma pow2_pos: "0 < pow2 k"
  by (simp add: pow2_powi)

lemma pow2_add: "pow2 (a + b) = pow2 a * pow2 b"
  by (simp add: pow2_powi power_int_add)

lemma pow2_mono: "a \<le> b \<Longrightarrow> pow2 a \<le> pow2 b"
  by (simp add: pow2_powi power_int_increasing)

lemma pow2_nat: "pow2 (int n) = 2 ^ n"
  by (simp add: pow2_def)

lemma pow2_neg: "pow2 (- int n) = 1 / 2 ^ n"
  by (simp add: pow2_def)

lemma pow2_diff: "pow2 (a - b) = pow2 a / pow2 b"
  using pow2_add[of "a - b" b] pow2_pos[of b] by (simp add: field_simps)

lemma bit_length_bounds:
  "0 < n \<Longrightarrow> 2 ^ (bit_length n - 1) \<le> n \<and> n < 2 ^ bit_length n"
proof (induction n rule: bit_length.induct)
  case (1 n)
  show ?case
  proof (cases "n = 1")
    case True
    then show ?thesis by (simp add: bit_length.simps)
  next
    case False
    with "1.prems" have h: "0 < n div 2" by auto
    from "1.IH" "1.prems" h
    have ih: "2 ^ (bit_length (n div 2) - 1) \<le> n div 2" "n div 2 < 2 ^ bit_length (n div 2)"
      by auto
    have bl: "bit_length n = Suc (bit_length (n div 2))"
      using "1.prems" by (subst bit_length.simps) simp
    have pos: "0 < bit_length (n div 2)"
      using h by (subst bit_length.simps) simp
    then have "(2::int) ^ bit_length (n div 2) = 2 * 2 ^ (bit_length (n div 2) - 1)"
      by (cases "bit_length (n div 2)") simp_all
    with ih(1) have "2 ^ bit_length (n div 2) \<le> n" by linarith
    moreover from ih(2) have "n < 2 * 2 ^ bit_length (n div 2)" by linarith
    ultimately show ?thesis by (simp add: bl)
  qed
qed

lemma ilog2_lower:
  assumes "0 < a" "0 < b"
  shows "pow2 (ilog2 a b) \<le> of_int a / of_int b"
proof -
  define k where "k = int (bit_length a) - int (bit_length b)"
  have bpos: "(0::rat) < of_int b" using assms by simp
  show ?thesis
  proof (cases "if 0 \<le> k then b * 2 ^ nat k \<le> a else b \<le> a * 2 ^ nat (- k)")
    case True
    then have i: "ilog2 a b = k" unfolding ilog2_def Let_def k_def[symmetric] by simp
    show ?thesis
    proof (cases "0 \<le> k")
      case True
      with \<open>if 0 \<le> k then b * 2 ^ nat k \<le> a else b \<le> a * 2 ^ nat (- k)\<close>
      have "b * 2 ^ nat k \<le> a" by simp
      then have "(of_int (b * 2 ^ nat k) :: rat) \<le> of_int a" by (simp only: of_int_le_iff)
      then have "(of_int b :: rat) * 2 ^ nat k \<le> of_int a" by simp
      then show ?thesis using bpos True by (simp add: i pow2_def field_simps)
    next
      case False
      with \<open>if 0 \<le> k then b * 2 ^ nat k \<le> a else b \<le> a * 2 ^ nat (- k)\<close>
      have "b \<le> a * 2 ^ nat (- k)" by simp
      then have "(of_int b :: rat) \<le> of_int (a * 2 ^ nat (- k))" by (simp only: of_int_le_iff)
      then have "(of_int b :: rat) \<le> of_int a * 2 ^ nat (- k)" by simp
      then show ?thesis using bpos False by (simp add: i pow2_def field_simps)
    qed
  next
    case False
    then have i: "ilog2 a b = k - 1" unfolding ilog2_def Let_def k_def[symmetric] by simp
    from bit_length_bounds[OF assms(1)] bit_length_bounds[OF assms(2)]
    have la: "2 ^ (bit_length a - 1) \<le> a" and lb: "b < 2 ^ bit_length b" by simp_all
    have apos: "0 < bit_length a" using assms(1) by (subst bit_length.simps) simp
    have "(of_int (2 ^ (bit_length a - 1)) :: rat) \<le> of_int a" using la by (simp only: of_int_le_iff)
    then have la': "(2::rat) ^ (bit_length a - 1) \<le> of_int a" by simp
    have "(of_int b :: rat) \<le> of_int (2 ^ bit_length b)" using lb by (simp only: of_int_le_iff)
    then have lb': "(of_int b :: rat) \<le> 2 ^ bit_length b" by simp
    have "k - 1 = int (bit_length a - 1) - int (bit_length b)" using apos by (simp add: k_def)
    then have "pow2 (k - 1) = 2 ^ (bit_length a - 1) / 2 ^ bit_length b"
      by (simp add: pow2_diff pow2_nat)
    also have "\<dots> \<le> of_int a / of_int b"
      using la' lb' bpos assms by (intro frac_le) simp_all
    finally show ?thesis by (simp add: i)
  qed
qed

lemma round_half_even_error:
  assumes "0 < d"
  shows "\<bar>of_int (round_half_even n d) - (of_int n / of_int d :: rat)\<bar> \<le> 1 / 2"
proof -
  define q r where "q = n div d" and "r = n mod d"
  have n: "n = d * q + r" by (simp add: q_def r_def)
  have r: "0 \<le> r" "r < d" using assms by (simp_all add: r_def)
  have dpos: "(0::rat) < of_int d" using assms by simp
  have nd: "(of_int n / of_int d :: rat) = of_int q + of_int r / of_int d"
    using dpos by (simp add: n field_simps)
  have rr: "(0::rat) \<le> of_int r / of_int d" using r dpos by simp
  have half: "2 * r < d \<longleftrightarrow> (of_int r / of_int d :: rat) < 1 / 2"
    using dpos by (simp add: field_simps) (metis of_int_less_iff of_int_mult of_int_numeral mult.commute)
  have half': "d < 2 * r \<longleftrightarrow> 1 / 2 < (of_int r / of_int d :: rat)"
    using dpos by (simp add: field_simps) (metis of_int_less_iff of_int_mult of_int_numeral mult.commute)
  have one: "(of_int r / of_int d :: rat) < 1" using r dpos by simp
  show ?thesis
    unfolding round_half_even_def Let_def q_def[symmetric] r_def[symmetric] nd
    using rr half half' one by (auto simp: abs_if)
qed

lemma round_half_even_nonneg: "0 \<le> n \<Longrightarrow> 0 < d \<Longrightarrow> 0 \<le> round_half_even n d"
  by (auto simp: round_half_even_def Let_def pos_imp_zdiv_nonneg_iff)

lemma round_ratio_error:
  assumes "0 \<le> a" "0 < b"
  shows "\<bar>float_val (round_ratio a b) - of_int a / of_int b\<bar>
           \<le> (of_int a / of_int b) / 2 ^ 53 + pow2 (- 1075)
         \<and> 0 \<le> fst (round_ratio a b)"
proof (cases "a = 0")
  case True
  then show ?thesis using pow2_pos[of "- 1075"] by (simp add: round_ratio_def float_val_def)
next
  case False
  with assms have apos: "0 < a" by simp
  define q :: rat where "q = of_int a / of_int b"
  define e where "e = max (ilog2 a b - 52) (- 1074)"
  define m where "m = (if 0 \<le> e then round_half_even a (b * 2 ^ nat e)
                       else round_half_even (a * 2 ^ nat (- e)) b)"
  have rr: "round_ratio a b = (m, e)"
    using False unfolding round_ratio_def Let_def e_def[symmetric] m_def by simp
  have bpos: "(0::rat) < of_int b" using assms by simp
  have m_near: "\<bar>of_int m - q / pow2 e\<bar> \<le> 1 / 2"
  proof (cases "0 \<le> e")
    case True
    have "\<bar>of_int (round_half_even a (b * 2 ^ nat e)) - (of_int a / of_int (b * 2 ^ nat e) :: rat)\<bar> \<le> 1 / 2"
      using assms by (intro round_half_even_error) simp
    moreover have "(of_int a / of_int (b * 2 ^ nat e) :: rat) = q / pow2 e"
      using True by (simp add: q_def pow2_def)
    ultimately show ?thesis using True by (simp add: m_def)
  next
    case False
    have "\<bar>of_int (round_half_even (a * 2 ^ nat (- e)) b) - (of_int (a * 2 ^ nat (- e)) / of_int b :: rat)\<bar> \<le> 1 / 2"
      using assms by (intro round_half_even_error)
    moreover have "(of_int (a * 2 ^ nat (- e)) / of_int b :: rat) = q / pow2 e"
      using False by (simp add: q_def pow2_def)
    ultimately show ?thesis using False by (simp add: m_def)
  qed
  have "\<bar>of_int m * pow2 e - q\<bar> = pow2 e * \<bar>of_int m - q / pow2 e\<bar>"
    using pow2_pos[of e] by (simp add: abs_mult[symmetric] field_simps)
  also have "\<dots> \<le> pow2 e * (1 / 2)"
    using m_near pow2_pos[of e] by (intro mult_left_mono) simp_all
  finally have err: "\<bar>of_int m * pow2 e - q\<bar> \<le> pow2 e / 2" by simp
  have half: "pow2 e / 2 = pow2 (e - 1)"
    by (simp add: pow2_diff) (simp add: pow2_def)
  have "pow2 (e - 1) \<le> q / 2 ^ 53 + pow2 (- 1075)"
  proof (cases "- 1074 \<le> ilog2 a b - 52")
    case True
    then have "e - 1 = ilog2 a b - 53" by (simp add: e_def)
    then have "pow2 (e - 1) = pow2 (ilog2 a b - 53)" by (simp only:)
    also have "\<dots> = pow2 (ilog2 a b) / pow2 53" by (rule pow2_diff)
    also have "pow2 53 = 2 ^ 53" by (simp add: pow2_def)
    also have "pow2 (ilog2 a b) / 2 ^ 53 \<le> q / 2 ^ 53"
      using ilog2_lower[OF apos assms(2)] by (simp add: q_def divide_right_mono)
    finally show ?thesis using pow2_pos[of "- 1075"] by simp
  next
    case False
    then have "e = - 1074" by (simp add: e_def)
    then have "pow2 (e - 1) = pow2 (- 1075)" by simp
    moreover have "0 \<le> q / 2 ^ 53" using assms by (simp add: q_def)
    ultimately show ?thesis by linarith
  qed
  with err half have "\<bar>of_int m * pow2 e - q\<bar> \<le> q / 2 ^ 53 + pow2 (- 1075)" by simp
  moreover have "0 \<le> m"
    using assms by (auto simp: m_def intro!: round_half_even_nonneg)
  ultimately show ?thesis by (simp add: rr float_val_def q_def)
qed

lemma float_mul_int_error:
  assumes "0 \<le> fst x" "0 \<le> n"
  shows "\<bar>float_val (float_mul_int x n) - float_val x * of_int n\<bar>
           \<le> (float_val x * of_int n) / 2 ^ 53 + pow2 (- 1075)
         \<and> 0 \<le> fst (float_mul_int x n)"
proof -
  define a b where "a = (if 0 \<le> snd x then fst x * n * 2 ^ nat (snd x) else fst x * n)"
    and "b = (if 0 \<le> snd x then 1 else (2::int) ^ nat (- snd x))"
  have f: "float_mul_int x n = round_ratio a b"
    by (simp add: float_mul_int_def Let_def a_def b_def)
  have ab: "0 \<le> a" "0 < b" using assms by (simp_all add: a_def b_def)
  have eq: "(of_int a / of_int b :: rat) = float_val x * of_int n"
    by (simp add: a_def b_def float_val_def pow2_def)
  show ?thesis
    using round_ratio_error[OF ab] unfolding eq f .
qed

lemma tenths_error:
  assumes "0 \<le> fst x"
  shows "\<bar>of_int (tenths x) - 10 * float_val x\<bar> \<le> 1 / 2"
proof (cases "0 \<le> snd x")
  case True
  then show ?thesis by (simp add: tenths_def Let_def float_val_def pow2_def)
next
  case False
  have "(of_int (fst x * 10) / of_int (2 ^ nat (- snd x)) :: rat) = 10 * float_val x"
    using False by (simp add: float_val_def pow2_def)
  with round_half_even_error[of "2 ^ nat (- snd x)" "fst x * 10"] False
  show ?thesis by (simp add: tenths_def Let_def)
qed

lemma first_seen_length: "length (first_seen xs) \<le> length xs"
proof (induction xs)
  case Nil
  then show ?case by simp
next
  case (Cons x xs)
  have "length (filter (\<lambda>y. y \<noteq> x) (first_seen xs)) \<le> length xs"
    by (rule le_trans[OF length_filter_le Cons.IH])
  then show ?case by simp
qed

lemma all_methods_length: "length (all_methods c) = total_methods c"
  by (induction c) (auto simp: all_methods_def total_methods_def)

lemma duplicates_le_total: "length (analyze_duplicates c) \<le> total_methods c"
proof -
  have "length (analyze_duplicates c) \<le> length (methods_by_name c)"
    unfolding analyze_duplicates_def by (rule length_filter_le)
  also have "\<dots> = length (map fst (methods_by_name c))" by simp
  also have "\<dots> \<le> length (map fst (all_methods c))"
    unfolding methods_by_name_keys by (rule first_seen_length)
  finally show ?thesis by (simp add: all_methods_length)
qed

lemma tiny: "pow2 (- 1075) \<le> 1 / 2 ^ 60"
proof -
  have "pow2 (- 1075) \<le> pow2 (- 60)" by (rule pow2_mono) simp
  also have "\<dots> = 1 / 2 ^ 60" by (simp add: pow2_def)
  finally show ?thesis .
qed

lemma rate_accuracy:
  assumes "0 \<le> d" "d \<le> t" "0 < t"
  defines "n \<equiv> tenths (float_mul_int (round_ratio d t) 100)"
  shows "\<bar>of_int n / 10 - 100 * of_int d / of_int t\<bar> \<le> (1 / 20 + 1 / 2 ^ 44 :: rat)"
    and "0 \<le> n"
proof -
  define q :: rat where "q = of_int d / of_int t"
  define v1 where "v1 = float_val (round_ratio d t)"
  define v2 where "v2 = float_val (float_mul_int (round_ratio d t) 100)"
  have q: "0 \<le> q" "q \<le> 1" using assms by (simp_all add: q_def)
  from round_ratio_error[OF assms(1,3)]
  have e1: "\<bar>v1 - q\<bar> \<le> q / 2 ^ 53 + pow2 (- 1075)" and p1: "0 \<le> fst (round_ratio d t)"
    by (simp_all add: v1_def q_def)
  from float_mul_int_error[OF p1, of 100]
  have e2: "\<bar>v2 - v1 * 100\<bar> \<le> (v1 * 100) / 2 ^ 53 + pow2 (- 1075)"
    and p2: "0 \<le> fst (float_mul_int (round_ratio d t) 100)"
    by (simp_all add: v1_def v2_def)
  from tenths_error[OF p2]
  have e3: "\<bar>of_int n - 10 * v2\<bar> \<le> 1 / 2" by (simp add: n_def v2_def)
  have p53: "(2::rat) ^ 53 = 9007199254740992" and p60: "(2::rat) ^ 60 = 1152921504606846976"
    and p44: "(2::rat) ^ 44 = 17592186044416" by simp_all
  note t = tiny[unfolded p60]
  note e1' = e1[unfolded p53]
  note e2' = e2[unfolded p53]
  have q53: "q / 9007199254740992 \<le> 1 / 9007199254740992" using q by simp
  have b1: "\<bar>v1 - q\<bar> \<le> 1 / 9007199254740992 + 1 / 1152921504606846976"
    using e1' q53 t by linarith
  have v1: "v1 \<le> 2" using b1 q by linarith
  have v53: "v1 * 100 / 9007199254740992 \<le> 200 / 9007199254740992" using v1 by simp
  have b2: "\<bar>v2 - v1 * 100\<bar> \<le> 200 / 9007199254740992 + 1 / 1152921504606846976"
    using e2' v53 t by linarith
  have "\<bar>of_int n / 10 - 100 * q\<bar> \<le> 1 / 20 + 1 / 17592186044416"
    using b1 b2 e3 by linarith
  then have "\<bar>of_int n / 10 - 100 * q\<bar> \<le> 1 / 20 + 1 / 2 ^ 44"
    unfolding p44 .
  then show "\<bar>of_int n / 10 - 100 * of_int d / of_int t\<bar> \<le> (1 / 20 + 1 / 2 ^ 44 :: rat)"
    by (simp add: q_def)
  show "0 \<le> n"
    using p2 by (auto simp: n_def tenths_def Let_def intro!: round_half_even_nonneg)
qed

lemma rate_exact:
  assumes "0 < t" "t < 2 ^ 39"
    and "\<bar>of_int n / 10 - 100 * of_int d / of_int t\<bar> \<le> (1 / 20 + 1 / 2 ^ 44 :: rat)"
  shows "\<bar>of_int n / 10 - 100 * of_int d / of_int t\<bar> \<le> (1 / 20 :: rat)"
proof -
  define z where "z = 2 * n * t - 2000 * d"
  have tpos: "(0::rat) < of_int t" using assms(1) by simp
  have zq: "(of_int n / 10 - 100 * of_int d / of_int t :: rat) = of_int z / (20 * of_int t)"
    using tpos by (simp add: z_def field_simps)
  have az: "\<bar>of_int z / (20 * of_int t) :: rat\<bar> = of_int \<bar>z\<bar> / (20 * of_int t)"
    using tpos by (simp add: abs_mult)
  show ?thesis
  proof (cases "\<bar>z\<bar> \<le> t")
    case True
    then have "(of_int \<bar>z\<bar> :: rat) \<le> of_int t" by (simp only: of_int_le_iff)
    then have "(of_int \<bar>z\<bar> / (20 * of_int t) :: rat) \<le> of_int t / (20 * of_int t)"
      using tpos by (intro divide_right_mono) simp_all
    then show ?thesis unfolding zq az using tpos by simp
  next
    case False
    then have "t + 1 \<le> \<bar>z\<bar>" by simp
    then have "(of_int (t + 1) :: rat) \<le> of_int \<bar>z\<bar>" by (simp only: of_int_le_iff)
    then have "(of_int (t + 1) / (20 * of_int t) :: rat) \<le> of_int \<bar>z\<bar> / (20 * of_int t)"
      using tpos by (intro divide_right_mono) simp_all
    with assms(3) have "(of_int (t + 1) / (20 * of_int t) :: rat) \<le> 1 / 20 + 1 / 2 ^ 44"
      unfolding zq az by linarith
    then have "(2 ^ 44 :: rat) \<le> 20 * of_int t"
      using tpos by (simp add: field_simps)
    then have "(of_int (2 ^ 44) :: rat) \<le> of_int (20 * t)" by simp
    then have "2 ^ 44 \<le> 20 * t" by (simp only: of_int_le_iff)
    with assms(2) show ?thesis by simp
  qed
qed

lemma seven_percent: "format_1f (float_mul_int (round_ratio 7 100) 100) = ''7.0''"
  by code_simp

lemma summary_rate:
  assumes "0 < total_methods c"
  shows "summary c =
     ([CHR 0x0A # ''=== SUMMARY ==='',
       ''Total files: '' @ str_int (int (length c)),
       ''Total methods: '' @ str_int (int (total_methods c)),
       ''Duplicate method names: '' @ str_int (int (length (analyze_duplicates c))),
       ''Duplication rate: ''
         @ format_1f (float_mul_int (round_ratio (int (length (analyze_duplicates c)))
                                                 (int (total_methods c))) 100) @ ''%''],
      None)"
  using assms by (simp add: summary_def true_divide_def Let_def)

lemma rate_nearest:
  assumes "0 < t"
    and "\<bar>of_int n / 10 - 100 * of_int d / of_int t\<bar> \<le> (1 / 20 :: rat)"
    and "2 * ((1000 * d) mod t) \<noteq> t"
  shows "n = (if 2 * ((1000 * d) mod t) < t then (1000 * d) div t else (1000 * d) div t + 1)"
proof -
  define z where "z = 2 * n * t - 2000 * d"
  define q r k where "q = (1000 * d) div t" and "r = (1000 * d) mod t" and "k = n - q"
  have tpos: "(0::rat) < of_int t" using assms(1) by simp
  have zq: "(of_int n / 10 - 100 * of_int d / of_int t :: rat) = of_int z / (20 * of_int t)"
    using tpos by (simp add: z_def field_simps)
  have az: "\<bar>of_int z / (20 * of_int t) :: rat\<bar> = of_int \<bar>z\<bar> / (20 * of_int t)"
    using tpos by (simp add: abs_mult)
  from assms(2) have "(of_int \<bar>z\<bar> :: rat) \<le> of_int t"
    unfolding zq az using tpos by (simp add: field_simps)
  then have z: "\<bar>z\<bar> \<le> t" by (simp only: of_int_le_iff)
  have r: "0 \<le> r" "r < t" using assms(1) by (simp_all add: r_def)
  have "1000 * d = q * t + r" by (simp add: q_def r_def)
  then have ze: "z = 2 * (k * t) - 2 * r" by (simp add: z_def k_def algebra_simps)
  have "\<not> k \<le> - 1"
  proof
    assume "k \<le> - 1"
    then have "k * t \<le> (- 1) * t" using assms(1) by (intro mult_right_mono) simp_all
    with z ze r assms(1) show False by simp
  qed
  moreover have "\<not> 2 \<le> k"
  proof
    assume "2 \<le> k"
    then have "2 * t \<le> k * t" using assms(1) by (intro mult_right_mono) simp_all
    with z ze r assms(1) show False by simp
  qed
  ultimately consider "k = 0" | "k = 1" by linarith
  then show ?thesis
  proof cases
    case 1
    with z ze r assms(3) have "2 * r < t" by (simp add: r_def)
    with 1 show ?thesis by (simp add: k_def q_def r_def)
  next
    case 2
    with z ze r assms(3) have "t < 2 * r" by (simp add: r_def)
    with 2 show ?thesis by (simp add: k_def q_def r_def)
  qed
qed

lemma rate_digits:
  "format_1f (float_mul_int (round_ratio 1 16) 100) = ''6.2''"
  "format_1f (float_mul_int (round_ratio 3 80) 100) = ''3.8''"
  "format_1f (float_mul_int (round_ratio 23 80) 100) = ''28.7''"
  by code_simp+

lemma small_numbers:
  "str_int 100 = ''100''" "str_int 7 = ''7''" "str_int 16 = ''16''" "str_int 1 = ''1''"
  "str_int 80 = ''80''" "str_int 3 = ''3''" "str_int 23 = ''23''"
  by code_simp+

text \<open>
  C7 (as amended). When the catalog has an entry, the last line of the summary is the
  rate with one decimal: the digits printed are those of \<open>n / 10\<close> for an integer
  \<open>n \<ge> 0\<close>, and \<open>n / 10\<close> differs from the exact rate (duplicate names / total entries)
  \<open>\<times>\<close> 100 by at most half a unit of the decimal plus the rounding error of the two
  float operations, \<open>2\<^sup>-\<^sup>4\<^sup>4\<close>. For fewer than \<open>2\<^sup>3\<^sup>9\<close> entries it is within half a unit
  of the decimal, so it is the one-decimal value nearest to the exact rate whenever the
  exact rate is not halfway between two one-decimal values. On such a half the floats
  decide: 1 duplicate name in 16 entries prints \<^verbatim>\<open>6.2%\<close>, 3 in 80 print \<^verbatim>\<open>3.8%\<close> and
  23 in 80 print \<^verbatim>\<open>28.7%\<close>. For 100 entries and 7 duplicate names the line is
  \<^verbatim>\<open>Duplication rate: 7.0%\<close>.
\<close>

theorem duplication_rate_rendering:
  "(0 < total_methods c \<longrightarrow>
      (\<exists>n. summary c =
             ([CHR 0x0A # ''=== SUMMARY ==='',
               ''Total files: '' @ str_int (int (length c)),
               ''Total methods: '' @ str_int (int (total_methods c)),
               ''Duplicate method names: '' @ str_int (int (length (analyze_duplicates c))),
               ''Duplication rate: '' @ str_int (n div 10) @ ''.'' @ str_int (n mod 10) @ ''%''],
              None)
         \<and> 0 \<le> n
         \<and> \<bar>of_int n / 10
              - 100 * of_nat (length (analyze_duplicates c)) / of_nat (total_methods c)\<bar>
             \<le> (1 / 20 + 1 / 2 ^ 44 :: rat)
         \<and> (total_methods c < 2 ^ 39 \<longrightarrow>
              \<bar>of_int n / 10
                - 100 * of_nat (length (analyze_duplicates c)) / of_nat (total_methods c)\<bar>
               \<le> (1 / 20 :: rat))
         \<and> (total_methods c < 2 ^ 39
              \<and> 2 * ((1000 * int (length (analyze_duplicates c))) mod int (total_methods c))
                  \<noteq> int (total_methods c) \<longrightarrow>
              n = (if 2 * ((1000 * int (length (analyze_duplicates c))) mod int (total_methods c))
                        < int (total_methods c)
                   then (1000 * int (length (analyze_duplicates c))) div int (total_methods c)
                   else (1000 * int (length (analyze_duplicates c))) div int (total_methods c) + 1))))
   \<and> (total_methods c = 100 \<and> length (analyze_duplicates c) = 7 \<longrightarrow>
        summary c =
          ([CHR 0x0A # ''=== SUMMARY ==='',
            ''Total files: '' @ str_int (int (length c)),
            ''Total methods: 100'',
            ''Duplicate method names: 7'',
            ''Duplication rate: 7.0%''],
           None))
   \<and> (total_methods c = 16 \<and> length (analyze_duplicates c) = 1 \<longrightarrow>
        summary c =
          ([CHR 0x0A # ''=== SUMMARY ==='',
            ''Total files: '' @ str_int (int (length c)),
            ''Total methods: 16'',
            ''Duplicate method names: 1'',
            ''Duplication rate: 6.2%''],
           None))
   \<and> (total_methods c = 80 \<and> length (analyze_duplicates c) = 3 \<longrightarrow>
        summary c =
          ([CHR 0x0A # ''=== SUMMARY ==='',
            ''Total files: '' @ str_int (int (length c)),
            ''Total methods: 80'',
            ''Duplicate method names: 3'',
            ''Duplication rate: 3.8%''],
           None))
   \<and> (total_methods c = 80 \<and> length (analyze_duplicates c) = 23 \<longrightarrow>
        summary c =
          ([CHR 0x0A # ''=== SUMMARY ==='',
            ''Total files: '' @ str_int (int (length c)),
            ''Total methods: 80'',
            ''Duplicate method names: 23'',
            ''Duplication rate: 28.7%''],
           None))"
proof (intro conjI impI)
  assume pos: "0 < total_methods c"
  define d t where "d = int (length (analyze_duplicates c))" and "t = int (total_methods c)"
  define n where "n = tenths (float_mul_int (round_ratio d t) 100)"
  have dt: "0 \<le> d" "d \<le> t" "0 < t"
    using pos duplicates_le_total[of c] by (simp_all add: d_def t_def)
  have acc: "\<bar>of_int n / 10 - 100 * of_int d / of_int t\<bar> \<le> (1 / 20 + 1 / 2 ^ 44 :: rat)"
    and nn: "0 \<le> n"
    using rate_accuracy[OF dt] by (simp_all add: n_def)
  have ofd: "(of_int d :: rat) = of_nat (length (analyze_duplicates c))"
    and oft: "(of_int t :: rat) = of_nat (total_methods c)"
    by (simp_all add: d_def t_def)
  have s: "summary c =
             ([CHR 0x0A # ''=== SUMMARY ==='',
               ''Total files: '' @ str_int (int (length c)),
               ''Total methods: '' @ str_int (int (total_methods c)),
               ''Duplicate method names: '' @ str_int (int (length (analyze_duplicates c))),
               ''Duplication rate: '' @ str_int (n div 10) @ ''.'' @ str_int (n mod 10) @ ''%''],
              None)"
    unfolding summary_rate[OF pos] by (simp add: format_1f_def Let_def n_def d_def t_def)
  have ex: "\<bar>of_int n / 10 - 100 * of_int d / of_int t\<bar> \<le> (1 / 20 :: rat)"
    if "total_methods c < 2 ^ 39"
  proof -
    from that have "t < 2 ^ 39" by (simp add: t_def)
    with dt(3) acc show ?thesis by (intro rate_exact)
  qed
  have near: "total_methods c < 2 ^ 39 \<and> 2 * ((1000 * d) mod t) \<noteq> t \<longrightarrow>
      n = (if 2 * ((1000 * d) mod t) < t then (1000 * d) div t else (1000 * d) div t + 1)"
  proof
    assume h: "total_methods c < 2 ^ 39 \<and> 2 * ((1000 * d) mod t) \<noteq> t"
    from dt(3) ex[OF h[THEN conjunct1]] h[THEN conjunct2]
    show "n = (if 2 * ((1000 * d) mod t) < t then (1000 * d) div t else (1000 * d) div t + 1)"
      by (rule rate_nearest)
  qed
  have ex': "total_methods c < 2 ^ 39 \<longrightarrow>
              \<bar>of_int n / 10 - 100 * of_int d / of_int t\<bar> \<le> (1 / 20 :: rat)"
    using ex by blast
  note acc' = acc[unfolded ofd oft]
  note ex'' = ex'[unfolded ofd oft]
  note near' = near[unfolded d_def t_def]
  from s nn acc' ex'' near'
  show "\<exists>n. summary c =
             ([CHR 0x0A # ''=== SUMMARY ==='',
               ''Total files: '' @ str_int (int (length c)),
               ''Total methods: '' @ str_int (int (total_methods c)),
               ''Duplicate method names: '' @ str_int (int (length (analyze_duplicates c))),
               ''Duplication rate: '' @ str_int (n div 10) @ ''.'' @ str_int (n mod 10) @ ''%''],
              None)
         \<and> 0 \<le> n
         \<and> \<bar>of_int n / 10
              - 100 * of_nat (length (analyze_duplicates c)) / of_nat (total_methods c)\<bar>
             \<le> (1 / 20 + 1 / 2 ^ 44 :: rat)
         \<and> (total_methods c < 2 ^ 39 \<longrightarrow>
              \<bar>of_int n / 10
                - 100 * of_nat (length (analyze_duplicates c)) / of_nat (total_methods c)\<bar>
               \<le> (1 / 20 :: rat))
         \<and> (total_methods c < 2 ^ 39
              \<and> 2 * ((1000 * int (length (analyze_duplicates c))) mod int (total_methods c))
                  \<noteq> int (total_methods c) \<longrightarrow>
              n = (if 2 * ((1000 * int (length (analyze_duplicates c))) mod int (total_methods c))
                        < int (total_methods c)
                   then (1000 * int (length (analyze_duplicates c))) div int (total_methods c)
                   else (1000 * int (length (analyze_duplicates c))) div int (total_methods c) + 1))"
    by (intro exI[of _ n] conjI)
next
  assume h: "total_methods c = 100 \<and> length (analyze_duplicates c) = 7"
  then have pos: "0 < total_methods c" by simp
  show "summary c =
          ([CHR 0x0A # ''=== SUMMARY ==='',
            ''Total files: '' @ str_int (int (length c)),
            ''Total methods: 100'',
            ''Duplicate method names: 7'',
            ''Duplication rate: 7.0%''],
           None)"
    unfolding summary_rate[OF pos] using h by (simp add: seven_percent small_numbers)
next
  assume h: "total_methods c = 16 \<and> length (analyze_duplicates c) = 1"
  then have pos: "0 < total_methods c" by simp
  show "summary c =
          ([CHR 0x0A # ''=== SUMMARY ==='',
            ''Total files: '' @ str_int (int (length c)),
            ''Total methods: 16'',
            ''Duplicate method names: 1'',
            ''Duplication rate: 6.2%''],
           None)"
    unfolding summary_rate[OF pos] using h by (simp add: rate_digits small_numbers)
next
  assume h: "total_methods c = 80 \<and> length (analyze_duplicates c) = 3"
  then have pos: "0 < total_methods c" by simp
  show "summary c =
          ([CHR 0x0A # ''=== SUMMARY ==='',
            ''Total files: '' @ str_int (int (length c)),
            ''Total methods: 80'',
            ''Duplicate method names: 3'',
            ''Duplication rate: 3.8%''],
           None)"
    unfolding summary_rate[OF pos] using h by (simp add: rate_digits small_numbers)
next
  assume h: "total_methods c = 80 \<and> length (analyze_duplicates c) = 23"
  then have pos: "0 < total_methods c" by simp
  show "summary c =
          ([CHR 0x0A # ''=== SUMMARY ==='',
            ''Total files: '' @ str_int (int (length c)),
            ''Total methods: 80'',
            ''Duplicate method names: 23'',
            ''Duplication rate: 28.7%''],
           None)"
    unfolding summary_rate[OF pos] using h by (simp add: rate_digits small_numbers)
qed

theorem duplication_rate_rendering_witness:
  "total_methods catalog_hundred = 100
   \<and> length (analyze_duplicates catalog_hundred) = 7
   \<and> 0 < total_methods catalog_hundred
   \<and> total_methods catalog_hundred < 2 ^ 39
   \<and> summary catalog_hundred =
          ([CHR 0x0A # ''=== SUMMARY ==='',
            ''Total files: '' @ str_int (int (length catalog_hundred)),
            ''Total methods: 100'',
            ''Duplicate method names: 7'',
            ''Duplication rate: 7.0%''],
           None)
   \<and> total_methods catalog_sixteen = 16
   \<and> length (analyze_duplicates catalog_sixteen) = 1
   \<and> summary catalog_sixteen =
          ([CHR 0x0A # ''=== SUMMARY ==='',
            ''Total files: '' @ str_int (int (length catalog_sixteen)),
            ''Total methods: 16'',
            ''Duplicate method names: 1'',
            ''Duplication rate: 6.2%''],
           None)"
proof -
  have a: "total_methods catalog_hundred = 100" by code_simp
  have b: "length (analyze_duplicates catalog_hundred) = 7" by code_simp
  note r = duplication_rate_rendering[of catalog_hundred, THEN conjunct2, THEN conjunct1,
      THEN mp, OF conjI[OF a b]]
  have c: "0 < total_methods catalog_hundred" "total_methods catalog_hundred < 2 ^ 39"
    unfolding a by simp_all
  have d: "total_methods catalog_sixteen = 16" by code_simp
  have e: "length (analyze_duplicates catalog_sixteen) = 1" by code_simp
  note s = duplication_rate_rendering[of catalog_sixteen, THEN conjunct2, THEN conjunct2,
      THEN conjunct1, THEN mp, OF conjI[OF d e]]
  show ?thesis by (intro conjI) (rule a b c r d e s)+
qed

text \<open>
  C7 as stated fails on exact halves. With 80 entries and 23 duplicate names the exact
  rate is 28.75, which rounds to 28.8 half up and half to even alike, and the line
  printed is \<^verbatim>\<open>28.7%\<close>: the quotient 23 / 80 times 100 is a float just below 28.75.
  With 3 duplicate names the exact rate is 3.75 and the line printed is \<^verbatim>\<open>3.8%\<close>: so
  no rule for halves applied to the exact rate gives both lines.
\<close>

theorem rate_half_counterexample:
  "total_methods (catalog_eighty 23) = 80
   \<and> length (analyze_duplicates (catalog_eighty 23)) = 23
   \<and> (100 * 23 / 80 :: rat) = 2875 / 100
   \<and> summary (catalog_eighty 23) =
          ([CHR 0x0A # ''=== SUMMARY ==='',
            ''Total files: 1'',
            ''Total methods: 80'',
            ''Duplicate method names: 23'',
            ''Duplication rate: 28.7%''],
           None)
   \<and> total_methods (catalog_eighty 3) = 80
   \<and> length (analyze_duplicates (catalog_eighty 3)) = 3
   \<and> (100 * 3 / 80 :: rat) = 375 / 100
   \<and> summary (catalog_eighty 3) =
          ([CHR 0x0A # ''=== SUMMARY ==='',
            ''Total files: 1'',
            ''Total methods: 80'',
            ''Duplicate method names: 3'',
            ''Duplication rate: 3.8%''],
           None)"
proof -
  have a: "total_methods (catalog_eighty 23) = 80" by code_simp
  have b: "length (analyze_duplicates (catalog_eighty 23)) = 23" by code_simp
  have c: "total_methods (catalog_eighty 3) = 80" by code_simp
  have d: "length (analyze_duplicates (catalog_eighty 3)) = 3" by code_simp
  have l: "length (catalog_eighty 23) = 1" "length (catalog_eighty 3) = 1"
    by (simp_all add: catalog_eighty_def)
  have p: "0 < total_methods (catalog_eighty 23)" "0 < total_methods (catalog_eighty 3)"
    unfolding a c by simp_all
  have s1: "summary (catalog_eighty 23) =
          ([CHR 0x0A # ''=== SUMMARY ==='',
            ''Total files: 1'',
            ''Total methods: 80'',
            ''Duplicate method names: 23'',
            ''Duplication rate: 28.7%''],
           None)"
    unfolding summary_rate[OF p(1)] a b l by (simp add: rate_digits small_numbers)
  have s2: "summary (catalog_eighty 3) =
          ([CHR 0x0A # ''=== SUMMARY ==='',
            ''Total files: 1'',
            ''Total methods: 80'',
            ''Duplicate method names: 3'',
            ''Duplication rate: 3.8%''],
           None)"
    unfolding summary_rate[OF p(2)] c d l by (simp add: rate_digits small_numbers)
  have q: "(100 * 23 / 80 :: rat) = 2875 / 100" "(100 * 3 / 80 :: rat) = 375 / 100" by simp_all
  show ?thesis by (intro conjI) (rule a b c d s1 s2 q)+
qed

end
